theory Spec2Isabelle
  imports Complex_Main
begin

section \<open>JavaScript strings\<close>

text \<open>
  A JavaScript string is a sequence of UTF-16 code units; a code unit is modelled as a
  natural number (below 65536). Literals of the source that are plain ASCII are written
  with \<open>ascii\<close>; the CJK characters of the two message prefixes are given by their
  code units.
\<close>

type_synonym ustring = "nat list"

definition ascii :: "string \<Rightarrow> ustring" where
  "ascii s = map of_char s"

text \<open>
  The code units that \<open>String.prototype.trim\<close> strips and that \<open>\s\<close> matches:
  the ECMAScript WhiteSpace and LineTerminator productions.
\<close>

definition isWhiteSpace :: "nat \<Rightarrow> bool" where
  "isWhiteSpace c \<longleftrightarrow>
     c = 9 \<or> c = 10 \<or> c = 11 \<or> c = 12 \<or> c = 13 \<or> c = 32 \<or> c = 160 \<or> c = 5760 \<or>
     (8192 \<le> c \<and> c \<le> 8202) \<or> c = 8232 \<or> c = 8233 \<or> c = 8239 \<or> c = 8287 \<or>
     c = 12288 \<or> c = 65279"

definition trim :: "ustring \<Rightarrow> ustring" where
  "trim s = rev (dropWhile isWhiteSpace (rev (dropWhile isWhiteSpace s)))"

definition isDigit :: "nat \<Rightarrow> bool" where
  "isDigit c \<longleftrightarrow> 48 \<le> c \<and> c \<le> 57"

text \<open>The character class \<open>[\d.]\<close>.\<close>

definition isDigitOrDot :: "nat \<Rightarrow> bool" where
  "isDigitOrDot c \<longleftrightarrow> isDigit c \<or> c = 46"

definition startsWith :: "ustring \<Rightarrow> ustring \<Rightarrow> bool" where
  "startsWith s p \<longleftrightarrow> take (length p) s = p"

text \<open>\<open>Array.prototype.join\<close> of strings with a separator.\<close>

fun joinWith :: "ustring \<Rightarrow> ustring list \<Rightarrow> ustring" where
  "joinWith sep [] = []"
| "joinWith sep [x] = x"
| "joinWith sep (x # y # ys) = x @ sep @ joinWith sep (y # ys)"

text \<open>
  Template interpolation \<open>${code}\<close> of the exit code handed to the \<open>close\<close> listener:
  a number prints in decimal, \<open>null\<close> (the child was ended by a signal) prints as
  the word itself.
\<close>

fun natDigits :: "nat \<Rightarrow> ustring" where
  "natDigits n = (if n < 10 then [48 + n] else natDigits (n div 10) @ [48 + n mod 10])"

declare natDigits.simps [simp del]

definition showCode :: "int option \<Rightarrow> ustring" where
  "showCode code =
     (case code of
        None \<Rightarrow> ascii ''null''
      | Some n \<Rightarrow> (if n < 0 then 45 # natDigits (nat (- n)) else natDigits (nat n)))"

section \<open>The two progress rules on one log line\<close>

subsection \<open>Structured extraction\<close>

text \<open>
  \<open>logLine.match(/'overall_progress':\s*([\d.]+)/)\<close>: the leftmost position where
  the key is followed by optional white space and at least one digit or dot. White space
  and \<open>[\d.]\<close> are disjoint, so backtracking inside \<open>\s*\<close> finds nothing more, and
  the greedy group takes the whole run. The result is the text of group 1; \<open>None\<close> is
  the \<open>null\<close> of a failed match.
\<close>

definition overallProgressKey :: ustring where
  "overallProgressKey = ascii [CHR 0x27] @ ascii ''overall_progress'' @ ascii [CHR 0x27] @ ascii '':''"

definition captureAt :: "ustring \<Rightarrow> ustring" where
  "captureAt s =
     (if startsWith s overallProgressKey
      then takeWhile isDigitOrDot (dropWhile isWhiteSpace (drop (length overallProgressKey) s))
      else [])"

fun matchOverallProgress :: "ustring \<Rightarrow> ustring option" where
  "matchOverallProgress [] = None"
| "matchOverallProgress (c # cs) =
     (if captureAt (c # cs) \<noteq> [] then Some (captureAt (c # cs)) else matchOverallProgress cs)"

text \<open>
  A value of the Number type as far as this code can meet one: \<open>NaN\<close>,
  \<open>Infinity\<close>, or a double given by the real number it stands for.
\<close>

datatype JsNumber = NaN | PosInfinity | Finite real

text \<open>
  \<open>parseFloat\<close> on the text of group 1, which holds digits and dots only. The
  longest prefix of the shape digits, digits-dot-digits, digits-dot or dot-digits is the
  literal; \<open>decimalOf\<close> gives its digits as a natural number together with the number
  of digits after the dot, and nothing when there is no such prefix.
\<close>

definition digitsValue :: "ustring \<Rightarrow> nat" where
  "digitsValue ds = foldl (\<lambda>a d. 10 * a + (d - 48)) 0 ds"

definition decimalOf :: "ustring \<Rightarrow> (nat \<times> nat) option" where
  "decimalOf s =
     (let ip = takeWhile isDigit s;
          r = drop (length ip) s;
          fp = (case r of [] \<Rightarrow> [] | c # r' \<Rightarrow> if c = 46 then takeWhile isDigit r' else [])
      in if ip = [] \<and> fp = [] then None else Some (digitsValue (ip @ fp), length fp))"

text \<open>
  The literal \<open>n / 10 ^ k\<close> becomes the nearest double, a tie going to the even
  significand, as the engine's conversion yields for a literal of any length.
  \<open>binaryExponent n d\<close> is the \<open>e\<close> with \<open>2 ^ e \<le> n / d < 2 ^ (e + 1)\<close>, found
  from the bit lengths of \<open>n\<close> and \<open>d\<close>; the spacing of the doubles around the value
  is \<open>2 ^ (e - 52)\<close>, and \<open>2 ^ (- 1074)\<close> below the normal range; a result from
  \<open>2 ^ 1024\<close> on is \<open>Infinity\<close>.
\<close>

fun bitLength :: "nat \<Rightarrow> nat" where
  "bitLength n = (if n = 0 then 0 else Suc (bitLength (n div 2)))"

declare bitLength.simps [simp del]

definition pow2 :: "int \<Rightarrow> real" where
  "pow2 e = (if 0 \<le> e then 2 ^ nat e else 1 / 2 ^ nat (- e))"

definition binaryExponent :: "nat \<Rightarrow> nat \<Rightarrow> int" where
  "binaryExponent n d =
     (let e0 = int (bitLength n) - int (bitLength d)
      in if pow2 e0 * real d \<le> real n then e0 else e0 - 1)"

definition roundHalfEven :: "real \<Rightarrow> int" where
  "roundHalfEven y =
     (let f = \<lfloor>y\<rfloor>; r = y - of_int f
      in if r < 1 / 2 then f else if 1 / 2 < r then f + 1 else if even f then f else f + 1)"

definition toDouble :: "nat \<Rightarrow> nat \<Rightarrow> JsNumber" where
  "toDouble n k =
     (if n = 0 then Finite 0
      else
        (let e = binaryExponent n (10 ^ k)
         in if 1023 < e then PosInfinity
            else
              (let q = pow2 (max e (- 1022) - 52);
                   r = of_int (roundHalfEven (real n / 10 ^ k / q)) * q
               in if pow2 1024 \<le> r then PosInfinity else Finite r)))"

definition parseFloat :: "ustring \<Rightarrow> JsNumber" where
  "parseFloat s = (case decimalOf s of None \<Rightarrow> NaN | Some (n, k) \<Rightarrow> toDouble n k)"

text \<open>
  \<open>Math.round\<close> of a double that is not negative: the nearest integer, a tie going
  up. It leaves \<open>NaN\<close> and \<open>Infinity\<close> as they are, and the comparisons the code
  makes with those two are false or exclude the value.
\<close>

definition mathRound :: "real \<Rightarrow> int" where
  "mathRound x = \<lfloor>x + 1 / 2\<rfloor>"

text \<open>
  \<open>Math.round(parseFloat(overallProgressMatch[1]))\<close> for a line, when the pattern
  matches and the result is an integer: not \<open>NaN\<close> and not \<open>Infinity\<close>.
\<close>

definition overallProgressOf :: "ustring \<Rightarrow> int option" where
  "overallProgressOf logLine =
     (case matchOverallProgress logLine of
        None \<Rightarrow> None
      | Some cap \<Rightarrow>
          (case parseFloat cap of
             NaN \<Rightarrow> None
           | PosInfinity \<Rightarrow> None
           | Finite x \<Rightarrow> Some (mathRound x)))"

subsection \<open>Heuristic stage matching\<close>

text \<open>
  Every pattern of the table is a literal under the \<open>i\<close> flag. Without the \<open>u\<close> flag
  two code units match when their canonical (upper-case) forms agree, and a code unit
  from 128 on never canonicalises to an ASCII one; against an ASCII literal it is
  therefore enough to fold the ASCII letters.
\<close>

definition canonicalize :: "nat \<Rightarrow> nat" where
  "canonicalize c = (if 97 \<le> c \<and> c \<le> 122 then c - 32 else c)"

fun testIgnoreCase :: "ustring \<Rightarrow> ustring \<Rightarrow> bool" where
  "testIgnoreCase pat [] = (pat = [])"
| "testIgnoreCase pat (c # cs) =
     (map canonicalize (take (length pat) (c # cs)) = map canonicalize pat
      \<or> testIgnoreCase pat cs)"

definition progressStages :: "(ustring \<times> int) list" where
  "progressStages =
     [(ascii ''start to translate'', 5),
      (ascii ''Loading ONNX model'', 8),
      (ascii ''Parse PDF and Create Intermediate'', 15),
      (ascii ''Parse Page Layout'', 25),
      (ascii ''Automatic Term Extraction'', 35),
      (ascii ''Starting term extraction'', 40),
      (ascii ''Found title paragraph'', 50),
      (ascii ''Translate Paragraphs'', 60),
      (ascii ''Translation completed. Total:'', 85),
      (ascii ''Typesetting'', 90),
      (ascii ''Save PDF'', 95),
      (ascii ''finish translate:'', 98)]"

text \<open>The row at which the \<open>for\<close> loop breaks: the first one whose pattern matches.\<close>

definition matchStage :: "ustring \<Rightarrow> int option" where
  "matchStage logLine =
     map_option snd (find (\<lambda>stage. testIgnoreCase (fst stage) logLine) progressStages)"


section \<open>Job records, notifications and the history store\<close>

type_synonym timestamp = ustring

datatype TranslationJobStatus = Queued | Running | LlmPath | AwaitingUser | Success | Failed

datatype SourceType = Local | Download

record TranslationJobInput =
  in_filePath :: ustring
  in_originalName :: ustring
  in_sourceType :: SourceType
  in_downloadId :: "ustring option"

text \<open>
  \<open>TranslationQueueItem\<close>. An optional property is an \<open>option\<close>; \<open>delete job.error\<close>
  makes it \<open>None\<close>. The property \<open>spawnedProcess\<close> is never written by the manager
  and is left out.
\<close>

record TranslationQueueItem =
  j_id :: ustring
  j_filePath :: ustring
  j_originalName :: ustring
  j_sourceType :: SourceType
  j_status :: TranslationJobStatus
  j_progress :: int
  j_logs :: "ustring list"
  j_outputDir :: "ustring option"
  j_savePath :: "ustring option"
  j_error :: "ustring option"
  j_downloadId :: "ustring option"
  j_createdAt :: timestamp
  j_updatedAt :: timestamp

record TranslationRecord =
  r_id :: ustring
  r_title :: ustring
  r_authors :: "ustring option"
  r_abstractSnippet :: "ustring option"
  r_sourcePath :: ustring
  r_translatedPath :: "ustring option"
  r_savePath :: "ustring option"
  r_status :: TranslationJobStatus
  r_errorMessage :: "ustring option"
  r_progress :: "int option"
  r_createdAt :: timestamp
  r_updatedAt :: timestamp
  r_logs :: "ustring list"

text \<open>
  The \<open>Partial<TranslationRecord>\<close> objects that the manager hands to
  \<open>updateHistoryRecord\<close> carry some of five keys; a key that is absent is \<open>None\<close>.
\<close>

record HistoryPatch =
  p_status :: "TranslationJobStatus option"
  p_translatedPath :: "ustring option"
  p_errorMessage :: "ustring option"
  p_progress :: "int option"
  p_logs :: "ustring list option"

definition noPatch :: HistoryPatch where
  "noPatch = \<lparr>p_status = None, p_translatedPath = None, p_errorMessage = None,
               p_progress = None, p_logs = None\<rparr>"

text \<open>The object spread \<open>{ ...record, ...data, updatedAt: now }\<close>.\<close>

definition applyPatch :: "timestamp \<Rightarrow> HistoryPatch \<Rightarrow> TranslationRecord \<Rightarrow> TranslationRecord" where
  "applyPatch now data r =
     r\<lparr>r_status := (case p_status data of None \<Rightarrow> r_status r | Some s \<Rightarrow> s),
       r_translatedPath := (case p_translatedPath data of None \<Rightarrow> r_translatedPath r | Some t \<Rightarrow> Some t),
       r_errorMessage := (case p_errorMessage data of None \<Rightarrow> r_errorMessage r | Some e \<Rightarrow> Some e),
       r_progress := (case p_progress data of None \<Rightarrow> r_progress r | Some n \<Rightarrow> Some n),
       r_logs := (case p_logs data of None \<Rightarrow> r_logs r | Some l \<Rightarrow> l),
       r_updatedAt := now\<rparr>"

text \<open>
  The store functions take the stored list (\<open>getHistory()\<close>) and return the list they
  store; \<open>updateHistoryRecord\<close> returns with it the record it found, or \<open>None\<close> for
  \<open>null\<close>.
\<close>

definition appendHistory :: "TranslationRecord \<Rightarrow> TranslationRecord list \<Rightarrow> TranslationRecord list" where
  "appendHistory record h = take 500 (record # h)"

definition updateHistoryRecord ::
  "timestamp \<Rightarrow> ustring \<Rightarrow> HistoryPatch \<Rightarrow> TranslationRecord list
     \<Rightarrow> TranslationRecord list \<times> TranslationRecord option" where
  "updateHistoryRecord now i data h =
     (let next = map (\<lambda>record. if r_id record = i then applyPatch now data record else record) h
      in (next, find (\<lambda>record. r_id record = i) next))"

definition removeHistoryRecord :: "ustring \<Rightarrow> TranslationRecord list \<Rightarrow> TranslationRecord list" where
  "removeHistoryRecord i h = filter (\<lambda>record. r_id record \<noteq> i) h"

text \<open>What the three channels of the emitter carry.\<close>

datatype Payload =
    StatusPayload ustring TranslationJobStatus "int option"
  | ProgressPayload ustring ustring
  | CompletedPayload ustring bool "ustring option" "ustring option"

section \<open>The translation manager\<close>

text \<open>
  The state: the two fields of \<open>TranslationManager\<close>, the stored history, the payloads
  emitted so far in order, and what the event loop holds for the manager: the point at
  which the one pending \<open>runJob\<close> is suspended, and the child processes whose
  \<open>close\<close> has not fired yet, each with the \<open>outputDir\<close> its listeners closed over.
  A job object is only ever reached through the queue, which never shrinks, so a
  reference to a job is its position in the queue.
\<close>

datatype RunPhase = Idle | AwaitInsight nat | AwaitEnvironment nat | AwaitChild nat

record World =
  queue :: "TranslationQueueItem list"
  processing :: bool
  history :: "TranslationRecord list"
  emitted :: "Payload list"
  awaiting :: RunPhase
  children :: "(nat \<times> ustring) list"

definition initialWorld :: World where
  "initialWorld = \<lparr>queue = [], processing = False, history = [], emitted = [],
                    awaiting = Idle, children = []\<rparr>"

fun findIndex :: "('a \<Rightarrow> bool) \<Rightarrow> 'a list \<Rightarrow> nat option" where
  "findIndex P [] = None"
| "findIndex P (x # xs) = (if P x then Some 0 else map_option Suc (findIndex P xs))"

definition modifyJob :: "nat \<Rightarrow> (TranslationQueueItem \<Rightarrow> TranslationQueueItem) \<Rightarrow> World \<Rightarrow> World" where
  "modifyJob idx f w = w\<lparr>queue := (queue w)[idx := f (queue w ! idx)]\<rparr>"

definition storeUpdate :: "timestamp \<Rightarrow> ustring \<Rightarrow> HistoryPatch \<Rightarrow> World \<Rightarrow> World" where
  "storeUpdate now i data w = w\<lparr>history := fst (updateHistoryRecord now i data (history w))\<rparr>"

definition emit :: "Payload \<Rightarrow> World \<Rightarrow> World" where
  "emit payload w = w\<lparr>emitted := emitted w @ [payload]\<rparr>"

definition emitStatus ::
  "timestamp \<Rightarrow> ustring \<Rightarrow> TranslationJobStatus \<Rightarrow> int option \<Rightarrow> World \<Rightarrow> World" where
  "emitStatus now i st p w =
     (let w1 = emit (StatusPayload i st p) w;
          w2 = (case findIndex (\<lambda>item. j_id item = i) (queue w1) of
                  None \<Rightarrow> w1
                | Some k \<Rightarrow>
                    modifyJob k (\<lambda>job. job\<lparr>j_status := st,
                        j_progress := (case p of None \<Rightarrow> j_progress job | Some n \<Rightarrow> n),
                        j_updatedAt := now\<rparr>) w1)
      in storeUpdate now i (noPatch\<lparr>p_status := Some st, p_progress := p\<rparr>) w2)"

subsection \<open>The progress rules on a job\<close>

text \<open>
  With \<open>NaN\<close> the first comparison is false, with \<open>Infinity\<close> the second: the
  job is left as it is.
\<close>

definition tryParseDebugProgress :: "timestamp \<Rightarrow> nat \<Rightarrow> ustring \<Rightarrow> World \<Rightarrow> World" where
  "tryParseDebugProgress now idx logLine w =
     (case matchOverallProgress logLine of
        None \<Rightarrow> w
      | Some cap \<Rightarrow>
          (case parseFloat cap of
             NaN \<Rightarrow> w
           | PosInfinity \<Rightarrow> w
           | Finite x \<Rightarrow>
               (let overallProgress = mathRound x; job = queue w ! idx
                in if overallProgress > j_progress job \<and> overallProgress \<le> 100
                   then emitStatus now (j_id job) (j_status job) (Some overallProgress)
                          (modifyJob idx (\<lambda>job. job\<lparr>j_progress := overallProgress\<rparr>) w)
                   else w)))"

fun stagesLoop ::
  "timestamp \<Rightarrow> nat \<Rightarrow> ustring \<Rightarrow> (ustring \<times> int) list \<Rightarrow> World \<Rightarrow> World" where
  "stagesLoop now idx logLine [] w = w"
| "stagesLoop now idx logLine (stage # rest) w =
     (if testIgnoreCase (fst stage) logLine
      then (let job = queue w ! idx
            in if snd stage > j_progress job
               then emitStatus now (j_id job) (j_status job) (Some (snd stage))
                      (modifyJob idx (\<lambda>job. job\<lparr>j_progress := snd stage\<rparr>) w)
               else w)
      else stagesLoop now idx logLine rest w)"

definition tryUpdateProgressFromLog :: "timestamp \<Rightarrow> nat \<Rightarrow> ustring \<Rightarrow> World \<Rightarrow> World" where
  "tryUpdateProgressFromLog now idx logLine w = stagesLoop now idx logLine progressStages w"

text \<open>\<open>job.logs.splice(0, job.logs.length - 500)\<close> under its guard.\<close>

definition evict :: "ustring list \<Rightarrow> ustring list" where
  "evict l = (if length l > 500 then drop (length l - 500) l else l)"

definition appendLog :: "timestamp \<Rightarrow> nat \<Rightarrow> ustring \<Rightarrow> World \<Rightarrow> World" where
  "appendLog now idx message w =
     (let trimmed = trim message
      in if trimmed = [] then w
         else
           (let w1 = modifyJob idx
                       (\<lambda>job. job\<lparr>j_logs := evict (j_logs job @ [trimmed]), j_updatedAt := now\<rparr>) w;
                job = queue w1 ! idx;
                w2 = emit (ProgressPayload (j_id job) trimmed) w1;
                w3 = storeUpdate now (j_id job) (noPatch\<lparr>p_logs := Some (j_logs job)\<rparr>) w2;
                w4 = tryParseDebugProgress now idx trimmed w3
            in tryUpdateProgressFromLog now idx trimmed w4))"


subsection \<open>Running one job\<close>

datatype ThemePreference = Light | Dark | System

record BabeldocOptions =
  b_bilingual :: bool
  b_debug :: bool
  b_extraFlags :: ustring

record AppSettings =
  s_openaiBaseUrl :: ustring
  s_openaiApiKey :: ustring
  s_openaiModel :: ustring
  s_documentRoot :: ustring
  s_theme :: ThemePreference
  s_babeldoc :: BabeldocOptions
  s_uvBinDir :: ustring

record EnvironmentSummary =
  e_pythonPath :: ustring
  e_uvPath :: ustring
  e_babeldocPath :: ustring
  e_uvBinDir :: ustring

record DocumentInsight =
  d_title :: ustring
  d_authors :: "ustring option"
  d_abstractSnippet :: ustring

text \<open>
  What \<open>runJob\<close> takes from outside the manager between \<open>getSettings()\<close> and
  \<open>spawn\<close>: the settings, the environment summary that \<open>ensureEnvironment\<close>
  resolved to, the \<open>userData\<close> directory with the separator of \<open>path.join\<close> (its
  normalisation is not modelled), and how the two calls that can throw ended:
  \<open>mkdirSync\<close> threw, \<open>spawn\<close> threw, or \<open>spawn\<close> returned the child.
\<close>

datatype LaunchOutcome = MkdirThrew | SpawnThrew | Spawned

record Launch =
  l_settings :: AppSettings
  l_environment :: EnvironmentSummary
  l_userData :: ustring
  l_sep :: ustring
  l_outcome :: LaunchOutcome

text \<open>\<open>flags.split(/\s+/)\<close>: the pieces between maximal runs of white space.\<close>

fun splitWhiteSpace :: "ustring \<Rightarrow> ustring \<Rightarrow> ustring list" where
  "splitWhiteSpace cur [] = [cur]"
| "splitWhiteSpace cur (c # cs) =
     (if isWhiteSpace c
      then (if cs \<noteq> [] \<and> isWhiteSpace (hd cs) then splitWhiteSpace cur cs
            else cur # splitWhiteSpace [] cs)
      else splitWhiteSpace (cur @ [c]) cs)"

definition parseExtraFlags :: "ustring \<Rightarrow> ustring list" where
  "parseExtraFlags flags = filter (\<lambda>flag. flag \<noteq> []) (map trim (splitWhiteSpace [] flags))"

definition buildArgs :: "AppSettings \<Rightarrow> ustring \<Rightarrow> ustring \<Rightarrow> ustring list" where
  "buildArgs settings file outputDir =
     [ascii ''--openai'',
      ascii ''--openai-model'', s_openaiModel settings,
      ascii ''--openai-base-url'', s_openaiBaseUrl settings,
      ascii ''--openai-api-key'', s_openaiApiKey settings,
      ascii ''--files'', file,
      ascii ''--output'', outputDir,
      ascii ''--watermark-output-mode'', ascii ''no_watermark'']
     @ (if b_debug (s_babeldoc settings) then [ascii ''--debug''] else [])
     @ (if b_bilingual (s_babeldoc settings) then [ascii ''--bilingual''] else [])
     @ (if b_extraFlags (s_babeldoc settings) \<noteq> []
        then parseExtraFlags (b_extraFlags (s_babeldoc settings)) else [])"

text \<open>The two message prefixes of the source, as code units.\<close>

definition commandPrefix :: ustring where
  "commandPrefix = [0x6267, 0x884C, 0x547D, 0x4EE4] @ ascii '': ''"

definition exitPrefix :: ustring where
  "exitPrefix = ascii ''BabelDOC '' @ [0x9000, 0x51FA, 0x7801] @ ascii '' ''"

definition createHistorySkeleton ::
  "timestamp \<Rightarrow> DocumentInsight \<Rightarrow> TranslationQueueItem \<Rightarrow> TranslationJobStatus
     \<Rightarrow> ustring option \<Rightarrow> TranslationRecord" where
  "createHistorySkeleton now insight job st translatedDir =
     \<lparr>r_id = j_id job, r_title = d_title insight, r_authors = d_authors insight,
      r_abstractSnippet = Some (d_abstractSnippet insight), r_sourcePath = j_filePath job,
      r_translatedPath = translatedDir, r_savePath = None, r_status = st,
      r_errorMessage = None, r_progress = Some (j_progress job),
      r_createdAt = j_createdAt job, r_updatedAt = now, r_logs = j_logs job\<rparr>"

text \<open>
  \<open>runJob\<close> up to its first \<open>await\<close>: it runs inside the call from
  \<open>processNext\<close>. It is suspended on \<open>createHistorySkeleton\<close> when the store has no
  record of the job, on \<open>ensureEnvironment\<close> otherwise.
\<close>

definition runJobStart :: "timestamp \<Rightarrow> nat \<Rightarrow> World \<Rightarrow> World" where
  "runJobStart now idx w =
     (let w1 = modifyJob idx (\<lambda>job. job\<lparr>j_status := Running, j_logs := [], j_updatedAt := now\<rparr>) w;
          i = j_id (queue w1 ! idx);
          w2 = emitStatus now i Running (Some 0) w1;
          r = updateHistoryRecord now i
                (noPatch\<lparr>p_status := Some Running, p_logs := Some [], p_progress := Some 0\<rparr>)
                (history w2);
          w3 = w2\<lparr>history := fst r\<rparr>
      in (case snd r of
            None \<Rightarrow> w3\<lparr>awaiting := AwaitInsight idx\<rparr>
          | Some existingRecord \<Rightarrow> w3\<lparr>awaiting := AwaitEnvironment idx\<rparr>))"

definition processNext :: "timestamp \<Rightarrow> World \<Rightarrow> World" where
  "processNext now w =
     (if processing w then w
      else (case findIndex (\<lambda>job. j_status job = Queued) (queue w) of
              None \<Rightarrow> w\<lparr>processing := False\<rparr>
            | Some nextItem \<Rightarrow> runJobStart now nextItem (w\<lparr>processing := True\<rparr>)))"

text \<open>
  \<open>processNext\<close> after its \<open>await\<close>, whether \<open>runJob\<close> resolved or rejected (the
  \<open>catch\<close> only logs): the flag is cleared and the microtask that calls
  \<open>processNext\<close> again runs before any other event is delivered.
\<close>

definition processNextResume :: "timestamp \<Rightarrow> World \<Rightarrow> World" where
  "processNextResume now w = processNext now (w\<lparr>processing := False, awaiting := Idle\<rparr>)"

definition enqueue ::
  "timestamp \<Rightarrow> ustring \<Rightarrow> TranslationJobInput \<Rightarrow> World \<Rightarrow> TranslationQueueItem \<times> World" where
  "enqueue now uuid jobInput w =
     (let item = \<lparr>j_id = uuid, j_filePath = in_filePath jobInput,
                  j_originalName = in_originalName jobInput,
                  j_sourceType = in_sourceType jobInput, j_status = Queued, j_progress = 0,
                  j_logs = [], j_outputDir = None, j_savePath = None, j_error = None,
                  j_downloadId = in_downloadId jobInput, j_createdAt = now, j_updatedAt = now\<rparr>;
          idx = length (queue w);
          w1 = w\<lparr>queue := queue w @ [item]\<rparr>;
          w2 = emitStatus now uuid Queued (Some 0) w1;
          w3 = processNext now w2
      in (queue w3 ! idx, w3))"

definition markJobSaved ::
  "timestamp \<Rightarrow> ustring \<Rightarrow> ustring \<Rightarrow> World \<Rightarrow> TranslationQueueItem option \<times> World" where
  "markJobSaved now jobId savePath w =
     (case findIndex (\<lambda>item. j_id item = jobId) (queue w) of
        None \<Rightarrow> (None, w)
      | Some k \<Rightarrow>
          (let w1 = modifyJob k (\<lambda>job. job\<lparr>j_status := Success, j_progress := 100,
                        j_savePath := Some savePath, j_error := None, j_updatedAt := now\<rparr>) w;
               w2 = emitStatus now (j_id (queue w1 ! k)) Success (Some 100) w1
           in (Some (queue w2 ! k), w2)))"

text \<open>
  The continuation of \<open>runJob\<close> after \<open>createHistorySkeleton\<close>: the skeleton is built
  from the job as it is then, and stored.
\<close>

definition runJobInsight :: "timestamp \<Rightarrow> nat \<Rightarrow> DocumentInsight \<Rightarrow> World \<Rightarrow> World" where
  "runJobInsight now idx insight w =
     w\<lparr>history := appendHistory (createHistorySkeleton now insight (queue w ! idx) Running None)
                     (history w),
       awaiting := AwaitEnvironment idx\<rparr>"

text \<open>
  The continuation after \<open>ensureEnvironment\<close>, up to the \<open>await\<close> of the promise
  that the listeners settle. A throw of \<open>mkdirSync\<close> rejects \<open>runJob\<close> before
  the command is logged, a throw of \<open>spawn\<close> after it.
\<close>

definition runJobLaunch :: "timestamp \<Rightarrow> nat \<Rightarrow> Launch \<Rightarrow> World \<Rightarrow> World" where
  "runJobLaunch now idx launch w =
     (let job = queue w ! idx;
          outputDir = joinWith (l_sep launch) [l_userData launch, ascii ''translations'', j_id job];
          args = buildArgs (l_settings launch) (j_filePath job) outputDir;
          command = e_babeldocPath (l_environment launch);
          w1 = appendLog now idx
                 (commandPrefix @ command @ ascii '' '' @ joinWith (ascii '' '') args) w
      in case l_outcome launch of
           MkdirThrew \<Rightarrow> processNextResume now w
         | SpawnThrew \<Rightarrow> processNextResume now w1
         | Spawned \<Rightarrow>
             w1\<lparr>children := children w1 @ [(idx, outputDir)], awaiting := AwaitChild idx\<rparr>)"

subsection \<open>The listeners of the child process\<close>

definition dataHandler :: "timestamp \<Rightarrow> nat \<Rightarrow> ustring \<Rightarrow> World \<Rightarrow> World" where
  "dataHandler now idx chunk w = appendLog now idx (trim chunk) w"

text \<open>
  The \<open>close\<close> listener without its \<open>resolve()\<close> or \<open>reject()\<close>; listing the
  output directory only feeds the application log.
\<close>

definition closeHandler :: "timestamp \<Rightarrow> nat \<Rightarrow> ustring \<Rightarrow> int option \<Rightarrow> World \<Rightarrow> World" where
  "closeHandler now idx outputDir code w =
     (if code = Some 0
      then
        (let w1 = modifyJob idx (\<lambda>job. job\<lparr>j_status := AwaitingUser, j_progress := 100,
                      j_outputDir := Some outputDir, j_error := None, j_updatedAt := now\<rparr>) w;
             i = j_id (queue w1 ! idx);
             w2 = emitStatus now i AwaitingUser (Some 100) w1;
             w3 = storeUpdate now i
                    (noPatch\<lparr>p_status := Some AwaitingUser, p_translatedPath := Some outputDir,
                       p_logs := Some (j_logs (queue w2 ! idx)), p_progress := Some 100\<rparr>) w2
         in emit (CompletedPayload i True (Some outputDir) None) w3)
      else
        (let errorMessage = exitPrefix @ showCode code;
             w1 = modifyJob idx (\<lambda>job. job\<lparr>j_status := Failed, j_progress := 100,
                      j_error := Some errorMessage, j_updatedAt := now\<rparr>) w;
             i = j_id (queue w1 ! idx);
             w2 = emitStatus now i Failed (Some 100) w1;
             w3 = appendLog now idx errorMessage w2;
             w4 = storeUpdate now i
                    (noPatch\<lparr>p_status := Some Failed, p_errorMessage := Some errorMessage,
                       p_logs := Some (j_logs (queue w3 ! idx)), p_progress := Some 100\<rparr>) w3
         in emit (CompletedPayload i False None (Some errorMessage)) w4))"

definition errorHandler :: "timestamp \<Rightarrow> nat \<Rightarrow> ustring \<Rightarrow> World \<Rightarrow> World" where
  "errorHandler now idx message w =
     (let w1 = modifyJob idx (\<lambda>job. job\<lparr>j_status := Failed, j_progress := 100,
                   j_error := Some message, j_updatedAt := now\<rparr>) w;
          i = j_id (queue w1 ! idx);
          w2 = emitStatus now i Failed (Some 100) w1;
          w3 = appendLog now idx message w2;
          w4 = storeUpdate now i
                 (noPatch\<lparr>p_status := Some Failed, p_errorMessage := Some message,
                    p_logs := Some (j_logs (queue w3 ! idx)), p_progress := Some 100\<rparr>) w3
      in emit (CompletedPayload i False None (Some message)) w4)"

text \<open>
  A promise settles once: \<open>resolve\<close> or \<open>reject\<close> resumes \<open>processNext\<close> only while
  \<open>runJob\<close> is suspended on the promise of this child.
\<close>

definition settle :: "timestamp \<Rightarrow> nat \<Rightarrow> World \<Rightarrow> World" where
  "settle now idx w = (if awaiting w = AwaitChild idx then processNextResume now w else w)"

subsection \<open>What the event loop delivers\<close>

text \<open>
  Calls from the application (\<open>enqueue\<close> with the identifier \<open>randomUUID()\<close>
  returned, \<open>markJobSaved\<close>), the outcomes of the two awaited collaborators
  (\<open>deriveDocumentInsight\<close> catches every error and always resolves;
  \<open>ensureEnvironment\<close> resolves or rejects), and the events of a child process. Each
  carries the time the clock shows while it is handled. An event that cannot occur in
  the present state leaves it as it is.
\<close>

datatype Action =
    Enqueue timestamp ustring TranslationJobInput
  | MarkJobSaved timestamp ustring ustring
  | InsightResolved timestamp DocumentInsight
  | EnvironmentResolved timestamp Launch
  | EnvironmentRejected timestamp
  | ChildData timestamp nat ustring
  | ChildClose timestamp nat "int option"
  | ChildError timestamp nat ustring

fun step :: "Action \<Rightarrow> World \<Rightarrow> World" where
  "step (Enqueue now uuid jobInput) w = snd (enqueue now uuid jobInput w)"
| "step (MarkJobSaved now jobId savePath) w = snd (markJobSaved now jobId savePath w)"
| "step (InsightResolved now insight) w =
     (case awaiting w of AwaitInsight idx \<Rightarrow> runJobInsight now idx insight w | _ \<Rightarrow> w)"
| "step (EnvironmentResolved now launch) w =
     (case awaiting w of AwaitEnvironment idx \<Rightarrow> runJobLaunch now idx launch w | _ \<Rightarrow> w)"
| "step (EnvironmentRejected now) w =
     (case awaiting w of AwaitEnvironment idx \<Rightarrow> processNextResume now w | _ \<Rightarrow> w)"
| "step (ChildData now idx chunk) w =
     (case map_of (children w) idx of None \<Rightarrow> w | Some outputDir \<Rightarrow> dataHandler now idx chunk w)"
| "step (ChildClose now idx code) w =
     (case map_of (children w) idx of
        None \<Rightarrow> w
      | Some outputDir \<Rightarrow>
          (let w1 = closeHandler now idx outputDir code w
           in settle now idx (w1\<lparr>children := filter (\<lambda>child. fst child \<noteq> idx) (children w1)\<rparr>)))"
| "step (ChildError now idx message) w =
     (case map_of (children w) idx of
        None \<Rightarrow> w
      | Some outputDir \<Rightarrow> settle now idx (errorHandler now idx message w))"

definition run :: "Action list \<Rightarrow> World \<Rightarrow> World" where
  "run actions w = foldl (\<lambda>w a. step a w) w actions"

section \<open>Notions used in the statements\<close>

text \<open>What \<open>emitStatus\<close> does to the job it finds.\<close>

definition statusSetter ::
  "timestamp \<Rightarrow> TranslationJobStatus \<Rightarrow> int option \<Rightarrow> TranslationQueueItem \<Rightarrow> TranslationQueueItem" where
  "statusSetter now st p job =
     job\<lparr>j_status := st,
         j_progress := (case p of None \<Rightarrow> j_progress job | Some n \<Rightarrow> n),
         j_updatedAt := now\<rparr>"

text \<open>
  The two statements both rules execute when they apply: \<open>job.progress = n\<close> and
  \<open>this.emitStatus(job.id, job.status, n)\<close>.
\<close>

definition setProgress :: "timestamp \<Rightarrow> nat \<Rightarrow> int \<Rightarrow> World \<Rightarrow> World" where
  "setProgress now idx n w =
     emitStatus now (j_id (queue w ! idx)) (j_status (queue w ! idx)) (Some n)
       (modifyJob idx (\<lambda>job. job\<lparr>j_progress := n\<rparr>) w)"

text \<open>The progress that one line leaves behind, from the progress \<open>p\<close> before it.\<close>

definition lineProgress :: "int \<Rightarrow> ustring \<Rightarrow> int" where
  "lineProgress p logLine =
     (let p1 = (case overallProgressOf logLine of
                  None \<Rightarrow> p | Some n \<Rightarrow> if p < n \<and> n \<le> 100 then n else p)
      in case matchStage logLine of None \<Rightarrow> p1 | Some s \<Rightarrow> if p1 < s then s else p1)"

text \<open>A sequence of calls of \<open>appendLog\<close> on one job, each at its own time.\<close>

definition appendLogs :: "nat \<Rightarrow> (timestamp \<times> ustring) list \<Rightarrow> World \<Rightarrow> World" where
  "appendLogs idx ms w = foldl (\<lambda>w m. appendLog (fst m) idx (snd m) w) w ms"

text \<open>The outcome of a dispatch step that finds the flag cleared.\<close>

definition dispatched :: "World \<Rightarrow> World \<Rightarrow> bool" where
  "dispatched w w' \<longleftrightarrow>
     (case findIndex (\<lambda>job. j_status job = Queued) (queue w) of
        None \<Rightarrow> \<not> processing w' \<and> awaiting w' = Idle \<and> queue w' = queue w
      | Some k \<Rightarrow> processing w' \<and> j_status (queue w' ! k) = Running
                  \<and> (awaiting w' = AwaitInsight k \<or> awaiting w' = AwaitEnvironment k)
                  \<and> (\<forall>m < length (queue w). m \<noteq> k \<longrightarrow> queue w' ! m = queue w ! m))"

text \<open>The payloads of the \<open>completed\<close> channel.\<close>

fun isCompleted :: "Payload \<Rightarrow> bool" where
  "isCompleted (CompletedPayload i ok dir err) = True"
| "isCompleted payload = False"

text \<open>Every stored record of the job \<open>i\<close> holds the logs \<open>l\<close>.\<close>

definition storedLogs :: "ustring \<Rightarrow> ustring list \<Rightarrow> World \<Rightarrow> bool" where
  "storedLogs i l w \<longleftrightarrow> (\<forall>r\<in>set (history w). r_id r = i \<longrightarrow> r_logs r = l)"

text \<open>
  The reading of a chunk that the specification describes: cut at every line feed or
  carriage return, a last piece without one being a line too.
\<close>

fun specLines :: "ustring \<Rightarrow> ustring \<Rightarrow> ustring list" where
  "specLines cur [] = (if cur = [] then [] else [cur])"
| "specLines cur (c # cs) =
     (if c = 10 \<or> c = 13 then cur # specLines [] cs else specLines (cur @ [c]) cs)"

text \<open>The calls that reach the store, in sequence.\<close>

datatype StoreCall =
    AppendHistory TranslationRecord
  | UpdateHistoryRecord timestamp ustring HistoryPatch
  | RemoveHistoryRecord ustring

fun storeCall :: "StoreCall \<Rightarrow> TranslationRecord list \<Rightarrow> TranslationRecord list" where
  "storeCall (AppendHistory record) h = appendHistory record h"
| "storeCall (UpdateHistoryRecord now i data) h = fst (updateHistoryRecord now i data h)"
| "storeCall (RemoveHistoryRecord i) h = removeHistoryRecord i h"

definition storeCalls :: "StoreCall list \<Rightarrow> TranslationRecord list \<Rightarrow> TranslationRecord list" where
  "storeCalls calls h = foldl (\<lambda>h c. storeCall c h) h calls"

text \<open>
  What holds of the manager as long as no \<open>runJob\<close> rejects before the listeners of
  its child exist: identifiers are distinct, a job with status \<open>running\<close> is the one
  whose \<open>runJob\<close> is pending, the flag is set exactly while one is pending, and every
  reference to a job is a position of the queue.
\<close>

definition wellRun :: "World \<Rightarrow> bool" where
  "wellRun w \<longleftrightarrow>
     distinct (map j_id (queue w))
     \<and> (\<forall>m < length (queue w). j_status (queue w ! m) = Running \<longrightarrow>
           awaiting w = AwaitInsight m \<or> awaiting w = AwaitEnvironment m \<or> awaiting w = AwaitChild m)
     \<and> (processing w \<longleftrightarrow> awaiting w \<noteq> Idle)
     \<and> (\<forall>m. awaiting w = AwaitInsight m \<or> awaiting w = AwaitEnvironment m \<or> awaiting w = AwaitChild m
           \<longrightarrow> m < length (queue w))
     \<and> (\<forall>c \<in> set (children w). fst c < length (queue w))"

text \<open>
  The deliveries under which that is kept: \<open>randomUUID\<close> returns a new identifier,
  \<open>ensureEnvironment\<close> does not reject, and neither \<open>mkdirSync\<close> nor \<open>spawn\<close>
  throws.
\<close>

fun admitted :: "Action \<Rightarrow> World \<Rightarrow> bool" where
  "admitted (Enqueue now uuid jobInput) w \<longleftrightarrow> uuid \<notin> set (map j_id (queue w))"
| "admitted (EnvironmentRejected now) w \<longleftrightarrow> False"
| "admitted (EnvironmentResolved now launch) w \<longleftrightarrow> l_outcome launch = Spawned"
| "admitted a w \<longleftrightarrow> True"

fun admissible :: "Action list \<Rightarrow> World \<Rightarrow> bool" where
  "admissible [] w \<longleftrightarrow> True"
| "admissible (a # as) w \<longleftrightarrow> admitted a w \<and> admissible as (step a w)"

subsection \<open>A session used as concrete input\<close>

text \<open>
  Two documents are enqueued in one go, the insight for the first arrives
  (\<open>demoWorld\<close>), then the environment resolves and the child is spawned
  (\<open>demoSpawned\<close>).
\<close>

definition demoInput :: "string \<Rightarrow> TranslationJobInput" where
  "demoInput name = \<lparr>in_filePath = ascii ''/docs/'' @ ascii name, in_originalName = ascii name,
                      in_sourceType = Local, in_downloadId = None\<rparr>"

definition demoInsight :: DocumentInsight where
  "demoInsight = \<lparr>d_title = ascii ''Paper'', d_authors = None, d_abstractSnippet = []\<rparr>"

definition demoLaunch :: Launch where
  "demoLaunch =
     \<lparr>l_settings =
        \<lparr>s_openaiBaseUrl = ascii ''https://api.openai.com/v1'', s_openaiApiKey = ascii ''k'',
         s_openaiModel = ascii ''gpt-4o-mini'', s_documentRoot = ascii ''/docs'', s_theme = System,
         s_babeldoc = \<lparr>b_bilingual = False, b_debug = True, b_extraFlags = []\<rparr>,
         s_uvBinDir = []\<rparr>,
      l_environment =
        \<lparr>e_pythonPath = ascii ''python3'', e_uvPath = ascii ''uv'',
         e_babeldocPath = ascii ''babeldoc'', e_uvBinDir = []\<rparr>,
      l_userData = ascii ''/data'', l_sep = ascii ''/'', l_outcome = Spawned\<rparr>"

definition demoWorld :: World where
  "demoWorld =
     run [Enqueue (ascii ''t1'') (ascii ''job-a'') (demoInput ''a.pdf''),
          Enqueue (ascii ''t2'') (ascii ''job-b'') (demoInput ''b.pdf''),
          InsightResolved (ascii ''t3'') demoInsight] initialWorld"

definition demoSpawned :: World where
  "demoSpawned = step (EnvironmentResolved (ascii ''t4'') demoLaunch) demoWorld"

text \<open>The session in which \<open>spawn\<close> throws instead.\<close>

definition demoThrown :: World where
  "demoThrown =
     step (EnvironmentResolved (ascii ''t4'') (demoLaunch\<lparr>l_outcome := SpawnThrew\<rparr>)) demoWorld"


definition demoOverLine :: ustring where
  "demoOverLine = ascii ''{'overall_progress': 100.4}''"

definition demoPercentLine :: ustring where
  "demoPercentLine = ascii ''{'overall_progress': 74.8}''"

definition demoLongLine :: ustring where
  "demoLongLine = ascii ''{'overall_progress': 100.49999999999999999999}''"

definition demoStageLine :: ustring where
  "demoStageLine = ascii ''Translate Paragraphs (1/3)''"

text \<open>A chunk of output that holds two lines.\<close>

definition demoChunk :: ustring where
  "demoChunk = ascii ''Parse Page Layout'' @ [10] @ ascii ''Translate Paragraphs'' @ [10]"


section \<open>Lemmas\<close>

lemma findIndex_SomeD:
  "findIndex P xs = Some k \<Longrightarrow> k < length xs \<and> P (xs ! k) \<and> (\<forall>j<k. \<not> P (xs ! j))"
proof (induction xs arbitrary: k)
  case Nil
  then show ?case by simp
next
  case (Cons x xs)
  show ?case
  proof (cases "P x")
    case True
    with Cons.prems show ?thesis by simp
  next
    case False
    with Cons.prems obtain k' where k': "findIndex P xs = Some k'" "k = Suc k'"
      by auto
    from Cons.IH [OF k'(1)] False k'(2) show ?thesis
      by (auto simp: nth_Cons split: nat.splits)
  qed
qed

lemma findIndex_None_iff: "findIndex P xs = None \<longleftrightarrow> (\<forall>x\<in>set xs. \<not> P x)"
  by (induction xs) auto

lemma findIndex_least:
  "k < length xs \<Longrightarrow> P (xs ! k) \<Longrightarrow> \<forall>j<k. \<not> P (xs ! j) \<Longrightarrow> findIndex P xs = Some k"
proof (induction xs arbitrary: k)
  case Nil
  then show ?case by simp
next
  case (Cons x xs)
  show ?case
  proof (cases k)
    case 0
    with Cons.prems show ?thesis by simp
  next
    case (Suc k')
    with Cons.prems have "\<not> P x" by auto
    moreover have "findIndex P xs = Some k'"
      using Cons.prems Suc by (intro Cons.IH) auto
    ultimately show ?thesis using Suc by simp
  qed
qed

subsection \<open>The status notification\<close>

lemma queue_emitStatus:
  "queue (emitStatus now i st p w) =
     (case findIndex (\<lambda>item. j_id item = i) (queue w) of
        None \<Rightarrow> queue w
      | Some k \<Rightarrow> (queue w)[k := statusSetter now st p (queue w ! k)])"
  by (simp add: emitStatus_def emit_def storeUpdate_def modifyJob_def statusSetter_def Let_def
      split: option.split)

lemma length_queue_emitStatus [simp]:
  "length (queue (emitStatus now i st p w)) = length (queue w)"
  by (simp add: queue_emitStatus split: option.split)

lemma emitStatus_other_fields [simp]:
  "processing (emitStatus now i st p w) = processing w"
  "awaiting (emitStatus now i st p w) = awaiting w"
  "children (emitStatus now i st p w) = children w"
  "emitted (emitStatus now i st p w) = emitted w @ [StatusPayload i st p]"
  by (simp_all add: emitStatus_def emit_def storeUpdate_def modifyJob_def Let_def split: option.split)

lemma emitStatus_nth:
  "m < length (queue w) \<Longrightarrow>
   queue (emitStatus now i st p w) ! m =
     (if findIndex (\<lambda>item. j_id item = i) (queue w) = Some m
      then statusSetter now st p (queue w ! m) else queue w ! m)"
  by (auto simp: queue_emitStatus nth_list_update split: option.split dest: findIndex_SomeD)

lemma emitStatus_nth_logs [simp]:
  "m < length (queue w) \<Longrightarrow> j_logs (queue (emitStatus now i st p w) ! m) = j_logs (queue w ! m)"
  by (simp add: emitStatus_nth statusSetter_def)

lemma emitStatus_nth_id [simp]:
  "m < length (queue w) \<Longrightarrow> j_id (queue (emitStatus now i st p w) ! m) = j_id (queue w ! m)"
  by (simp add: emitStatus_nth statusSetter_def)

lemma emitStatus_same_progress:
  "m < length (queue w) \<Longrightarrow> j_progress (queue w ! m) = n \<Longrightarrow>
   j_progress (queue (emitStatus now i st (Some n) w) ! m) = n"
  by (simp add: emitStatus_nth statusSetter_def)

lemma emitStatus_same_status:
  "m < length (queue w) \<Longrightarrow> j_status (queue w ! m) = st \<Longrightarrow>
   j_status (queue (emitStatus now i st p w) ! m) = st"
  by (simp add: emitStatus_nth statusSetter_def)

lemma modifyJob_simps [simp]:
  "length (queue (modifyJob idx f w)) = length (queue w)"
  "processing (modifyJob idx f w) = processing w"
  "awaiting (modifyJob idx f w) = awaiting w"
  "children (modifyJob idx f w) = children w"
  "emitted (modifyJob idx f w) = emitted w"
  "history (modifyJob idx f w) = history w"
  by (simp_all add: modifyJob_def)

lemma modifyJob_nth:
  "m < length (queue w) \<Longrightarrow>
   queue (modifyJob idx f w) ! m = (if m = idx then f (queue w ! m) else queue w ! m)"
  by (simp add: modifyJob_def nth_list_update)

lemma emit_simps [simp]:
  "queue (emit x w) = queue w"
  "processing (emit x w) = processing w"
  "awaiting (emit x w) = awaiting w"
  "children (emit x w) = children w"
  "emitted (emit x w) = emitted w @ [x]"
  "history (emit x w) = history w"
  by (simp_all add: emit_def)

lemma storeUpdate_simps [simp]:
  "queue (storeUpdate now i d w) = queue w"
  "processing (storeUpdate now i d w) = processing w"
  "awaiting (storeUpdate now i d w) = awaiting w"
  "children (storeUpdate now i d w) = children w"
  "emitted (storeUpdate now i d w) = emitted w"
  by (simp_all add: storeUpdate_def)

subsection \<open>Setting the progress of a job\<close>

lemma setProgress_length [simp]: "length (queue (setProgress now idx n w)) = length (queue w)"
  by (simp add: setProgress_def)

lemma setProgress_progress:
  "idx < length (queue w) \<Longrightarrow> j_progress (queue (setProgress now idx n w) ! idx) = n"
  by (simp add: setProgress_def emitStatus_same_progress modifyJob_nth)

lemma setProgress_status:
  "idx < length (queue w) \<Longrightarrow>
   j_status (queue (setProgress now idx n w) ! idx) = j_status (queue w ! idx)"
  by (simp add: setProgress_def emitStatus_same_status modifyJob_nth)

lemma setProgress_logs:
  "m < length (queue w) \<Longrightarrow>
   j_logs (queue (setProgress now idx n w) ! m) = j_logs (queue w ! m)"
  by (simp add: setProgress_def modifyJob_nth)

lemma setProgress_id:
  "m < length (queue w) \<Longrightarrow>
   j_id (queue (setProgress now idx n w) ! m) = j_id (queue w ! m)"
  by (simp add: setProgress_def modifyJob_nth)

lemma setProgress_other [simp]:
  "processing (setProgress now idx n w) = processing w"
  "awaiting (setProgress now idx n w) = awaiting w"
  "children (setProgress now idx n w) = children w"
  by (simp_all add: setProgress_def)

lemma tryParseDebugProgress_eq:
  "tryParseDebugProgress now idx logLine w =
     (case overallProgressOf logLine of
        None \<Rightarrow> w
      | Some n \<Rightarrow> if n > j_progress (queue w ! idx) \<and> n \<le> 100 then setProgress now idx n w else w)"
  by (simp add: tryParseDebugProgress_def overallProgressOf_def setProgress_def Let_def
      split: option.split JsNumber.split)

lemma stagesLoop_eq:
  "stagesLoop now idx logLine stages w =
     (case find (\<lambda>stage. testIgnoreCase (fst stage) logLine) stages of
        None \<Rightarrow> w
      | Some stage \<Rightarrow>
          if snd stage > j_progress (queue w ! idx) then setProgress now idx (snd stage) w else w)"
  by (induction stages) (simp_all add: setProgress_def Let_def)

lemma tryUpdateProgressFromLog_eq:
  "tryUpdateProgressFromLog now idx logLine w =
     (case matchStage logLine of
        None \<Rightarrow> w
      | Some n \<Rightarrow> if n > j_progress (queue w ! idx) then setProgress now idx n w else w)"
  by (simp add: tryUpdateProgressFromLog_def stagesLoop_eq matchStage_def split: option.split)

lemma matchStage_le: "matchStage logLine = Some n \<Longrightarrow> 5 \<le> n \<and> n \<le> 98"
proof -
  assume a: "matchStage logLine = Some n"
  then obtain stage where "find (\<lambda>stage. testIgnoreCase (fst stage) logLine) progressStages = Some stage" "snd stage = n"
    by (auto simp: matchStage_def)
  then have "stage \<in> set progressStages" "snd stage = n"
    by (auto simp: find_Some_iff in_set_conv_nth)
  then show ?thesis
    by (auto simp: progressStages_def)
qed

lemma tryParse_length [simp]:
  "length (queue (tryParseDebugProgress now idx l w)) = length (queue w)"
  by (simp add: tryParseDebugProgress_eq split: option.split)

lemma tryUpdate_length [simp]:
  "length (queue (tryUpdateProgressFromLog now idx l w)) = length (queue w)"
  by (simp add: tryUpdateProgressFromLog_eq split: option.split)

lemma tryParse_other [simp]:
  "processing (tryParseDebugProgress now idx l w) = processing w"
  "awaiting (tryParseDebugProgress now idx l w) = awaiting w"
  "children (tryParseDebugProgress now idx l w) = children w"
  by (simp_all add: tryParseDebugProgress_eq split: option.split)

lemma tryUpdate_other [simp]:
  "processing (tryUpdateProgressFromLog now idx l w) = processing w"
  "awaiting (tryUpdateProgressFromLog now idx l w) = awaiting w"
  "children (tryUpdateProgressFromLog now idx l w) = children w"
  by (simp_all add: tryUpdateProgressFromLog_eq split: option.split)

lemma tryParse_progress:
  "idx < length (queue w) \<Longrightarrow>
   j_progress (queue (tryParseDebugProgress now idx l w) ! idx) =
     (case overallProgressOf l of
        None \<Rightarrow> j_progress (queue w ! idx)
      | Some n \<Rightarrow> if j_progress (queue w ! idx) < n \<and> n \<le> 100 then n else j_progress (queue w ! idx))"
  by (simp add: tryParseDebugProgress_eq setProgress_progress split: option.split)

lemma tryUpdate_progress:
  "idx < length (queue w) \<Longrightarrow>
   j_progress (queue (tryUpdateProgressFromLog now idx l w) ! idx) =
     (case matchStage l of
        None \<Rightarrow> j_progress (queue w ! idx)
      | Some n \<Rightarrow> if j_progress (queue w ! idx) < n then n else j_progress (queue w ! idx))"
  by (simp add: tryUpdateProgressFromLog_eq setProgress_progress split: option.split)

lemma tryParse_status:
  "idx < length (queue w) \<Longrightarrow>
   j_status (queue (tryParseDebugProgress now idx l w) ! idx) = j_status (queue w ! idx)"
  by (simp add: tryParseDebugProgress_eq setProgress_status split: option.split)

lemma tryUpdate_status:
  "idx < length (queue w) \<Longrightarrow>
   j_status (queue (tryUpdateProgressFromLog now idx l w) ! idx) = j_status (queue w ! idx)"
  by (simp add: tryUpdateProgressFromLog_eq setProgress_status split: option.split)

lemma tryParse_logs:
  "m < length (queue w) \<Longrightarrow>
   j_logs (queue (tryParseDebugProgress now idx l w) ! m) = j_logs (queue w ! m)"
  by (simp add: tryParseDebugProgress_eq setProgress_logs split: option.split)

lemma tryUpdate_logs:
  "m < length (queue w) \<Longrightarrow>
   j_logs (queue (tryUpdateProgressFromLog now idx l w) ! m) = j_logs (queue w ! m)"
  by (simp add: tryUpdateProgressFromLog_eq setProgress_logs split: option.split)

lemma tryParse_id:
  "m < length (queue w) \<Longrightarrow>
   j_id (queue (tryParseDebugProgress now idx l w) ! m) = j_id (queue w ! m)"
  by (simp add: tryParseDebugProgress_eq setProgress_id split: option.split)

lemma tryUpdate_id:
  "m < length (queue w) \<Longrightarrow>
   j_id (queue (tryUpdateProgressFromLog now idx l w) ! m) = j_id (queue w ! m)"
  by (simp add: tryUpdateProgressFromLog_eq setProgress_id split: option.split)

lemma appendLog_blank: "trim message = [] \<Longrightarrow> appendLog now idx message w = w"
  by (simp add: appendLog_def)

lemma appendLog_length [simp]:
  "length (queue (appendLog now idx message w)) = length (queue w)"
  by (simp add: appendLog_def Let_def)

lemma appendLog_other [simp]:
  "processing (appendLog now idx message w) = processing w"
  "awaiting (appendLog now idx message w) = awaiting w"
  "children (appendLog now idx message w) = children w"
  by (simp_all add: appendLog_def Let_def)

lemma appendLog_logs:
  "idx < length (queue w) \<Longrightarrow>
   j_logs (queue (appendLog now idx message w) ! idx) =
     (if trim message = [] then j_logs (queue w ! idx)
      else evict (j_logs (queue w ! idx) @ [trim message]))"
  by (simp add: appendLog_def Let_def tryParse_logs tryUpdate_logs modifyJob_nth)

lemma appendLog_logs_other:
  "m < length (queue w) \<Longrightarrow> m \<noteq> idx \<Longrightarrow>
   j_logs (queue (appendLog now idx message w) ! m) = j_logs (queue w ! m)"
  by (simp add: appendLog_def Let_def tryParse_logs tryUpdate_logs modifyJob_nth)

lemma appendLog_id:
  "m < length (queue w) \<Longrightarrow> j_id (queue (appendLog now idx message w) ! m) = j_id (queue w ! m)"
  by (simp add: appendLog_def Let_def tryParse_id tryUpdate_id modifyJob_nth)

lemma appendLog_status:
  "idx < length (queue w) \<Longrightarrow>
   j_status (queue (appendLog now idx message w) ! idx) = j_status (queue w ! idx)"
  by (simp add: appendLog_def Let_def tryParse_status tryUpdate_status modifyJob_nth)

lemma appendLog_progress:
  "idx < length (queue w) \<Longrightarrow>
   j_progress (queue (appendLog now idx message w) ! idx) =
     (if trim message = [] then j_progress (queue w ! idx)
      else lineProgress (j_progress (queue w ! idx)) (trim message))"
  by (simp add: appendLog_def Let_def tryParse_progress tryUpdate_progress modifyJob_nth
      lineProgress_def split: option.split)

lemma lineProgress_ge: "p \<le> lineProgress p l"
  by (simp add: lineProgress_def Let_def split: option.split)

lemma lineProgress_full: "lineProgress 100 l = 100"
  by (auto simp: lineProgress_def Let_def split: option.split dest: matchStage_le)

lemma appendLogs_length [simp]: "length (queue (appendLogs idx ms w)) = length (queue w)"
  unfolding appendLogs_def by (induction ms arbitrary: w) simp_all

lemma appendLogs_append: "appendLogs idx (ms @ ms') w = appendLogs idx ms' (appendLogs idx ms w)"
  by (simp add: appendLogs_def)

lemma appendLogs_Cons: "appendLogs idx (m # ms) w = appendLogs idx ms (appendLog (fst m) idx (snd m) w)"
  by (simp add: appendLogs_def)

lemma appendLogs_Nil: "appendLogs idx [] w = w"
  by (simp add: appendLogs_def)

lemma appendLog_progress_mono:
  "idx < length (queue w) \<Longrightarrow>
   j_progress (queue w ! idx) \<le> j_progress (queue (appendLog now idx message w) ! idx)"
  by (simp add: appendLog_progress lineProgress_ge)

lemma appendLogs_progress_mono:
  "idx < length (queue w) \<Longrightarrow>
   j_progress (queue w ! idx) \<le> j_progress (queue (appendLogs idx ms w) ! idx)"
proof (induction ms arbitrary: w)
  case Nil
  then show ?case by (simp add: appendLogs_Nil)
next
  case (Cons m ms)
  have "j_progress (queue w ! idx) \<le> j_progress (queue (appendLog (fst m) idx (snd m) w) ! idx)"
    using Cons.prems by (rule appendLog_progress_mono)
  also have "\<dots> \<le> j_progress (queue (appendLogs idx ms (appendLog (fst m) idx (snd m) w)) ! idx)"
    using Cons.prems by (intro Cons.IH) simp
  finally show ?case by (simp add: appendLogs_Cons)
qed

subsection \<open>Logs\<close>

lemma evict_eq: "evict l = drop (length l - 500) l"
  by (simp add: evict_def)

lemma drop_last_append:
  "drop (length (drop (length xs - n) xs @ ys) - n) (drop (length xs - n) xs @ ys)
     = drop (length (xs @ ys) - n) (xs @ ys)"
proof (cases "length xs \<le> n")
  case True
  then show ?thesis by simp
next
  case False
  then have "length (drop (length xs - n) xs) = n" by simp
  then show ?thesis using False by (simp add: drop_append add.commute)
qed

lemma appendLogs_logs:
  "idx < length (queue w) \<Longrightarrow> length (j_logs (queue w ! idx)) \<le> 500 \<Longrightarrow>
   j_logs (queue (appendLogs idx ms w) ! idx) =
     drop (length (j_logs (queue w ! idx) @ filter (\<lambda>m. m \<noteq> []) (map (\<lambda>m. trim (snd m)) ms)) - 500)
       (j_logs (queue w ! idx) @ filter (\<lambda>m. m \<noteq> []) (map (\<lambda>m. trim (snd m)) ms))"
proof (induction ms arbitrary: w)
  case Nil
  then show ?case by (simp add: appendLogs_Nil)
next
  case (Cons m ms)
  let ?w1 = "appendLog (fst m) idx (snd m) w"
  let ?rest = "filter (\<lambda>m. m \<noteq> []) (map (\<lambda>m. trim (snd m)) ms)"
  have len: "idx < length (queue ?w1)" using Cons.prems by simp
  show ?case
  proof (cases "trim (snd m) = []")
    case True
    then have "?w1 = w" by (simp add: appendLog_blank)
    with Cons True show ?thesis by (simp add: appendLogs_Cons)
  next
    case False
    have l1: "j_logs (queue ?w1 ! idx) = drop (length (j_logs (queue w ! idx) @ [trim (snd m)]) - 500) (j_logs (queue w ! idx) @ [trim (snd m)])"
      using Cons.prems False by (simp add: appendLog_logs evict_eq)
    then have b1: "length (j_logs (queue ?w1 ! idx)) \<le> 500" by simp
    have "j_logs (queue (appendLogs idx ms ?w1) ! idx) =
      drop (length (j_logs (queue ?w1 ! idx) @ ?rest) - 500) (j_logs (queue ?w1 ! idx) @ ?rest)"
      using len b1 by (rule Cons.IH)
    also have "\<dots> = drop (length ((j_logs (queue w ! idx) @ [trim (snd m)]) @ ?rest) - 500) ((j_logs (queue w ! idx) @ [trim (snd m)]) @ ?rest)"
      unfolding l1 by (rule drop_last_append)
    finally show ?thesis using False by (simp add: appendLogs_Cons)
  qed
qed

lemma findIndex_distinct:
  assumes "distinct (map j_id q)" and "m < length q"
  shows "findIndex (\<lambda>item. j_id item = j_id (q ! m)) q = Some m"
proof (rule findIndex_least)
  show "m < length q" by fact
  show "j_id (q ! m) = j_id (q ! m)" by simp
  show "\<forall>j<m. j_id (q ! j) \<noteq> j_id (q ! m)"
  proof (intro allI impI)
    fix j assume "j < m"
    with assms have "map j_id q ! j \<noteq> map j_id q ! m"
      by (auto simp: distinct_conv_nth)
    with \<open>j < m\<close> assms(2) show "j_id (q ! j) \<noteq> j_id (q ! m)" by simp
  qed
qed

lemma emitStatus_distinct:
  assumes "distinct (map j_id (queue w))" and "m < length (queue w)"
  shows "queue (emitStatus now (j_id (queue w ! m)) st p w)
           = (queue w)[m := statusSetter now st p (queue w ! m)]"
  using findIndex_distinct [OF assms] by (simp add: queue_emitStatus)

lemma emitStatus_ids [simp]:
  "map j_id (queue (emitStatus now i st p w)) = map j_id (queue w)"
  by (rule nth_equalityI) simp_all

lemma modifyJob_ids:
  "(\<And>job. j_id (f job) = j_id job) \<Longrightarrow> map j_id (queue (modifyJob idx f w)) = map j_id (queue w)"
  by (rule nth_equalityI) (simp_all add: modifyJob_nth)

lemma appendLog_ids [simp]:
  "map j_id (queue (appendLog now idx message w)) = map j_id (queue w)"
  by (rule nth_equalityI) (simp_all add: appendLog_id)

subsection \<open>Fields that the notifications leave alone\<close>

lemma emitStatus_nth_frame:
  "m < length (queue w) \<Longrightarrow>
   j_error (queue (emitStatus now i st p w) ! m) = j_error (queue w ! m) \<and>
   j_outputDir (queue (emitStatus now i st p w) ! m) = j_outputDir (queue w ! m) \<and>
   j_savePath (queue (emitStatus now i st p w) ! m) = j_savePath (queue w ! m)"
  by (simp add: emitStatus_nth statusSetter_def)

lemma setProgress_frame:
  "m < length (queue w) \<Longrightarrow>
   j_error (queue (setProgress now idx n w) ! m) = j_error (queue w ! m) \<and>
   j_outputDir (queue (setProgress now idx n w) ! m) = j_outputDir (queue w ! m) \<and>
   j_savePath (queue (setProgress now idx n w) ! m) = j_savePath (queue w ! m)"
  by (simp add: setProgress_def emitStatus_nth_frame modifyJob_nth)

lemma tryParse_frame:
  "m < length (queue w) \<Longrightarrow>
   j_error (queue (tryParseDebugProgress now idx l w) ! m) = j_error (queue w ! m) \<and>
   j_outputDir (queue (tryParseDebugProgress now idx l w) ! m) = j_outputDir (queue w ! m) \<and>
   j_savePath (queue (tryParseDebugProgress now idx l w) ! m) = j_savePath (queue w ! m)"
  by (simp add: tryParseDebugProgress_eq setProgress_frame split: option.split)

lemma tryUpdate_frame:
  "m < length (queue w) \<Longrightarrow>
   j_error (queue (tryUpdateProgressFromLog now idx l w) ! m) = j_error (queue w ! m) \<and>
   j_outputDir (queue (tryUpdateProgressFromLog now idx l w) ! m) = j_outputDir (queue w ! m) \<and>
   j_savePath (queue (tryUpdateProgressFromLog now idx l w) ! m) = j_savePath (queue w ! m)"
  by (simp add: tryUpdateProgressFromLog_eq setProgress_frame split: option.split)

lemma appendLog_frame:
  "m < length (queue w) \<Longrightarrow>
   j_error (queue (appendLog now idx message w) ! m) = j_error (queue w ! m) \<and>
   j_outputDir (queue (appendLog now idx message w) ! m) = j_outputDir (queue w ! m) \<and>
   j_savePath (queue (appendLog now idx message w) ! m) = j_savePath (queue w ! m)"
  by (simp add: appendLog_def Let_def tryParse_frame tryUpdate_frame modifyJob_nth)

subsection \<open>What was emitted\<close>

lemma setProgress_emitted:
  "emitted (setProgress now idx n w) =
     emitted w @ [StatusPayload (j_id (queue w ! idx)) (j_status (queue w ! idx)) (Some n)]"
  by (simp add: setProgress_def)

lemma tryParse_emitted: "\<exists>es. emitted (tryParseDebugProgress now idx l w) = emitted w @ es"
  by (simp add: tryParseDebugProgress_eq setProgress_emitted split: option.split)

lemma tryUpdate_emitted: "\<exists>es. emitted (tryUpdateProgressFromLog now idx l w) = emitted w @ es"
  by (simp add: tryUpdateProgressFromLog_eq setProgress_emitted split: option.split)

lemma appendLog_emitted:
  "trim message \<noteq> [] \<Longrightarrow>
   \<exists>es. emitted (appendLog now idx message w) =
           emitted w @ ProgressPayload (j_id (queue w ! idx)) (trim message) # es"
proof -
  assume nb: "trim message \<noteq> []"
  let ?w1 = "modifyJob idx
               (\<lambda>job. job\<lparr>j_logs := evict (j_logs job @ [trim message]), j_updatedAt := now\<rparr>) w"
  let ?w3 = "storeUpdate now (j_id (queue ?w1 ! idx))
               (noPatch\<lparr>p_logs := Some (j_logs (queue ?w1 ! idx))\<rparr>)
               (emit (ProgressPayload (j_id (queue ?w1 ! idx)) (trim message)) ?w1)"
  let ?w4 = "tryParseDebugProgress now idx (trim message) ?w3"
  have eq: "appendLog now idx message w = tryUpdateProgressFromLog now idx (trim message) ?w4"
    using nb by (simp add: appendLog_def Let_def)
  have id1: "j_id (queue ?w1 ! idx) = j_id (queue w ! idx)"
    by (cases "idx < length (queue w)") (simp_all add: modifyJob_def list_update_beyond)
  obtain es1 where e1: "emitted ?w4 = emitted ?w3 @ es1"
    using tryParse_emitted by blast
  obtain es2 where e2: "emitted (tryUpdateProgressFromLog now idx (trim message) ?w4) = emitted ?w4 @ es2"
    using tryUpdate_emitted by blast
  have "emitted ?w3 = emitted w @ [ProgressPayload (j_id (queue w ! idx)) (trim message)]"
    by (simp add: id1)
  with e1 e2 eq show ?thesis by simp
qed

lemma appendLog_emitted_weak: "\<exists>es. emitted (appendLog now idx message w) = emitted w @ es"
proof (cases "trim message = []")
  case True
  then show ?thesis by (simp add: appendLog_blank)
next
  case False
  from appendLog_emitted [OF False, of now idx w] show ?thesis by auto
qed

lemma modifyJob_ids_status [simp]:
  "map j_id (queue (modifyJob idx (\<lambda>job. job\<lparr>j_progress := n\<rparr>) w)) = map j_id (queue w)"
  by (rule modifyJob_ids) simp

lemma setProgress_ids [simp]: "map j_id (queue (setProgress now idx n w)) = map j_id (queue w)"
  by (simp add: setProgress_def)

lemma tryParse_ids [simp]:
  "map j_id (queue (tryParseDebugProgress now idx l w)) = map j_id (queue w)"
  by (simp add: tryParseDebugProgress_eq split: option.split)

lemma tryUpdate_ids [simp]:
  "map j_id (queue (tryUpdateProgressFromLog now idx l w)) = map j_id (queue w)"
  by (simp add: tryUpdateProgressFromLog_eq split: option.split)

lemma emitStatus_other:
  assumes "distinct (map j_id (queue w))" "idx < length (queue w)" "m < length (queue w)" "m \<noteq> idx"
  shows "queue (emitStatus now (j_id (queue w ! idx)) st p w) ! m = queue w ! m"
  using assms findIndex_distinct [OF assms(1,2)] by (simp add: emitStatus_nth)

lemma setProgress_other_job:
  assumes "distinct (map j_id (queue w))" "idx < length (queue w)" "m < length (queue w)" "m \<noteq> idx"
  shows "queue (setProgress now idx n w) ! m = queue w ! m"
proof -
  let ?w1 = "modifyJob idx (\<lambda>job. job\<lparr>j_progress := n\<rparr>) w"
  have id1: "j_id (queue ?w1 ! idx) = j_id (queue w ! idx)"
    using assms(2) by (simp add: modifyJob_nth)
  have "queue (emitStatus now (j_id (queue ?w1 ! idx)) (j_status (queue w ! idx)) (Some n) ?w1) ! m
          = queue ?w1 ! m"
    using assms by (intro emitStatus_other) simp_all
  then show ?thesis using assms by (simp add: setProgress_def id1 modifyJob_nth)
qed

lemma tryParse_other_job:
  assumes "distinct (map j_id (queue w))" "idx < length (queue w)" "m < length (queue w)" "m \<noteq> idx"
  shows "queue (tryParseDebugProgress now idx l w) ! m = queue w ! m"
  using assms by (simp add: tryParseDebugProgress_eq setProgress_other_job split: option.split)

lemma tryUpdate_other_job:
  assumes "distinct (map j_id (queue w))" "idx < length (queue w)" "m < length (queue w)" "m \<noteq> idx"
  shows "queue (tryUpdateProgressFromLog now idx l w) ! m = queue w ! m"
  using assms by (simp add: tryUpdateProgressFromLog_eq setProgress_other_job split: option.split)

lemma appendLog_other_job:
  assumes "distinct (map j_id (queue w))" "idx < length (queue w)" "m < length (queue w)" "m \<noteq> idx"
  shows "queue (appendLog now idx message w) ! m = queue w ! m"
proof (cases "trim message = []")
  case True
  then show ?thesis by (simp add: appendLog_blank)
next
  case False
  let ?w1 = "modifyJob idx
               (\<lambda>job. job\<lparr>j_logs := evict (j_logs job @ [trim message]), j_updatedAt := now\<rparr>) w"
  let ?w3 = "storeUpdate now (j_id (queue ?w1 ! idx))
               (noPatch\<lparr>p_logs := Some (j_logs (queue ?w1 ! idx))\<rparr>)
               (emit (ProgressPayload (j_id (queue ?w1 ! idx)) (trim message)) ?w1)"
  let ?w4 = "tryParseDebugProgress now idx (trim message) ?w3"
  have eq: "appendLog now idx message w = tryUpdateProgressFromLog now idx (trim message) ?w4"
    using False by (simp add: appendLog_def Let_def)
  have ids1: "map j_id (queue ?w1) = map j_id (queue w)"
    by (rule modifyJob_ids) simp
  have q3: "queue ?w3 = queue ?w1" by simp
  have d3: "distinct (map j_id (queue ?w3))" using assms(1) by (simp add: ids1)
  have d4: "distinct (map j_id (queue ?w4))" using d3 by simp
  have "queue (tryUpdateProgressFromLog now idx (trim message) ?w4) ! m = queue ?w4 ! m"
    using d4 assms by (intro tryUpdate_other_job) simp_all
  also have "\<dots> = queue ?w3 ! m"
    using d3 assms by (intro tryParse_other_job) simp_all
  also have "\<dots> = queue w ! m"
    using assms by (simp add: modifyJob_nth)
  finally show ?thesis by (simp add: eq)
qed

subsection \<open>The close listener\<close>

lemma closeHandler_length [simp]:
  "length (queue (closeHandler now idx od code w)) = length (queue w)"
  by (simp add: closeHandler_def Let_def)

lemma closeHandler_flags [simp]:
  "processing (closeHandler now idx od code w) = processing w"
  "awaiting (closeHandler now idx od code w) = awaiting w"
  "children (closeHandler now idx od code w) = children w"
  by (simp_all add: closeHandler_def Let_def)

lemma closeHandler_ids [simp]:
  "map j_id (queue (closeHandler now idx od code w)) = map j_id (queue w)"
  by (simp add: closeHandler_def Let_def modifyJob_ids)

lemma closeHandler_zero:
  assumes "idx < length (queue w)"
  shows "j_status (queue (closeHandler now idx od (Some 0) w) ! idx) = AwaitingUser"
    and "j_progress (queue (closeHandler now idx od (Some 0) w) ! idx) = 100"
    and "j_outputDir (queue (closeHandler now idx od (Some 0) w) ! idx) = Some od"
    and "j_error (queue (closeHandler now idx od (Some 0) w) ! idx) = None"
    and "emitted (closeHandler now idx od (Some 0) w) =
           emitted w @ [StatusPayload (j_id (queue w ! idx)) AwaitingUser (Some 100),
                        CompletedPayload (j_id (queue w ! idx)) True (Some od) None]"
  using assms
  by (simp_all add: closeHandler_def Let_def emitStatus_same_status emitStatus_same_progress
      emitStatus_nth_frame modifyJob_nth)

lemma closeHandler_nonzero:
  assumes "idx < length (queue w)" and "code \<noteq> Some 0"
  shows "j_status (queue (closeHandler now idx od code w) ! idx) = Failed"
    and "j_progress (queue (closeHandler now idx od code w) ! idx) = 100"
    and "j_error (queue (closeHandler now idx od code w) ! idx) = Some (exitPrefix @ showCode code)"
    and "CompletedPayload (j_id (queue w ! idx)) False None (Some (exitPrefix @ showCode code))
           = last (emitted (closeHandler now idx od code w))"
  using assms
  by (simp_all add: closeHandler_def Let_def emitStatus_same_status emitStatus_same_progress
      emitStatus_nth_frame modifyJob_nth appendLog_status appendLog_progress appendLog_frame
      lineProgress_full appendLog_id)

lemma closeHandler_other_job:
  assumes "distinct (map j_id (queue w))" "idx < length (queue w)" "m < length (queue w)" "m \<noteq> idx"
  shows "queue (closeHandler now idx od code w) ! m = queue w ! m"
proof -
  have a: "\<And>f. map j_id (queue (modifyJob idx (\<lambda>job. job\<lparr>j_status := f job, j_progress := 100,
                      j_outputDir := Some od, j_error := None, j_updatedAt := now\<rparr>) w)) = map j_id (queue w)"
    by (rule modifyJob_ids) simp
  have b: "\<And>e. map j_id (queue (modifyJob idx (\<lambda>job. job\<lparr>j_status := Failed, j_progress := 100,
                      j_error := Some e, j_updatedAt := now\<rparr>) w)) = map j_id (queue w)"
    by (rule modifyJob_ids) simp
  have c: "\<And>f. j_id (queue (modifyJob idx f w) ! idx) = j_id (f (queue w ! idx))"
    using assms(2) by (simp add: modifyJob_nth)
  show ?thesis
  proof (cases "code = Some 0")
    case True
    let ?w1 = "modifyJob idx (\<lambda>job. job\<lparr>j_status := AwaitingUser, j_progress := 100,
                      j_outputDir := Some od, j_error := None, j_updatedAt := now\<rparr>) w"
    have "queue (emitStatus now (j_id (queue ?w1 ! idx)) AwaitingUser (Some 100) ?w1) ! m = queue ?w1 ! m"
      using assms by (intro emitStatus_other) (simp_all add: modifyJob_ids)
    then show ?thesis using True assms by (simp add: closeHandler_def Let_def modifyJob_nth)
  next
    case False
    let ?e = "exitPrefix @ showCode code"
    let ?w1 = "modifyJob idx (\<lambda>job. job\<lparr>j_status := Failed, j_progress := 100,
                      j_error := Some ?e, j_updatedAt := now\<rparr>) w"
    let ?w2 = "emitStatus now (j_id (queue ?w1 ! idx)) Failed (Some 100) ?w1"
    have d1: "distinct (map j_id (queue ?w1))" using assms(1) by (simp add: modifyJob_ids)
    have "queue (appendLog now idx ?e ?w2) ! m = queue ?w2 ! m"
      using d1 assms by (intro appendLog_other_job) simp_all
    also have "\<dots> = queue ?w1 ! m"
      using d1 assms by (intro emitStatus_other) simp_all
    finally show ?thesis using False assms by (simp add: closeHandler_def Let_def modifyJob_nth)
  qed
qed

subsection \<open>The error listener\<close>

lemma errorHandler_length [simp]:
  "length (queue (errorHandler now idx message w)) = length (queue w)"
  by (simp add: errorHandler_def Let_def)

lemma errorHandler_flags [simp]:
  "processing (errorHandler now idx message w) = processing w"
  "awaiting (errorHandler now idx message w) = awaiting w"
  "children (errorHandler now idx message w) = children w"
  by (simp_all add: errorHandler_def Let_def)

lemma errorHandler_ids [simp]:
  "map j_id (queue (errorHandler now idx message w)) = map j_id (queue w)"
  by (simp add: errorHandler_def Let_def modifyJob_ids)

lemma errorHandler_job:
  assumes "idx < length (queue w)"
  shows "j_status (queue (errorHandler now idx message w) ! idx) = Failed"
    and "j_progress (queue (errorHandler now idx message w) ! idx) = 100"
    and "j_error (queue (errorHandler now idx message w) ! idx) = Some message"
    and "CompletedPayload (j_id (queue w ! idx)) False None (Some message)
           = last (emitted (errorHandler now idx message w))"
  using assms
  by (simp_all add: errorHandler_def Let_def emitStatus_same_status emitStatus_same_progress
      emitStatus_nth_frame modifyJob_nth appendLog_status appendLog_progress appendLog_frame
      lineProgress_full appendLog_id)

lemma errorHandler_other_job:
  assumes "distinct (map j_id (queue w))" "idx < length (queue w)" "m < length (queue w)" "m \<noteq> idx"
  shows "queue (errorHandler now idx message w) ! m = queue w ! m"
proof -
  let ?w1 = "modifyJob idx (\<lambda>job. job\<lparr>j_status := Failed, j_progress := 100,
                    j_error := Some message, j_updatedAt := now\<rparr>) w"
  let ?w2 = "emitStatus now (j_id (queue ?w1 ! idx)) Failed (Some 100) ?w1"
  have d1: "distinct (map j_id (queue ?w1))" using assms(1) by (simp add: modifyJob_ids)
  have "queue (appendLog now idx message ?w2) ! m = queue ?w2 ! m"
    using d1 assms by (intro appendLog_other_job) simp_all
  also have "\<dots> = queue ?w1 ! m"
    using d1 assms by (intro emitStatus_other) simp_all
  finally show ?thesis using assms by (simp add: errorHandler_def Let_def modifyJob_nth)
qed

subsection \<open>Dispatch\<close>

lemma runJobStart_length [simp]: "length (queue (runJobStart now k w)) = length (queue w)"
  by (simp add: runJobStart_def Let_def split: option.split)

lemma runJobStart_flags [simp]:
  "processing (runJobStart now k w) = processing w"
  "children (runJobStart now k w) = children w"
  by (simp_all add: runJobStart_def Let_def split: option.split)

lemma runJobStart_awaiting:
  "awaiting (runJobStart now k w) = AwaitInsight k \<or> awaiting (runJobStart now k w) = AwaitEnvironment k"
  by (simp add: runJobStart_def Let_def split: option.split)

lemma runJobStart_ids [simp]: "map j_id (queue (runJobStart now k w)) = map j_id (queue w)"
  by (simp add: runJobStart_def Let_def modifyJob_ids split: option.split)

lemma runJobStart_emitted:
  "emitted (runJobStart now k w) = emitted w @ [StatusPayload (j_id (queue w ! k)) Running (Some 0)]"
  by (cases "k < length (queue w)")
     (simp_all add: runJobStart_def Let_def modifyJob_def list_update_beyond split: option.split)

lemma runJobStart_job:
  assumes "k < length (queue w)"
  shows "j_status (queue (runJobStart now k w) ! k) = Running"
    and "j_logs (queue (runJobStart now k w) ! k) = []"
  using assms
  by (simp_all add: runJobStart_def Let_def emitStatus_same_status modifyJob_nth split: option.split)

lemma runJobStart_other_job:
  assumes "distinct (map j_id (queue w))" "k < length (queue w)" "m < length (queue w)" "m \<noteq> k"
  shows "queue (runJobStart now k w) ! m = queue w ! m"
proof -
  let ?w1 = "modifyJob k (\<lambda>job. job\<lparr>j_status := Running, j_logs := [], j_updatedAt := now\<rparr>) w"
  have d1: "distinct (map j_id (queue ?w1))" using assms(1) by (simp add: modifyJob_ids)
  have "queue (emitStatus now (j_id (queue ?w1 ! k)) Running (Some 0) ?w1) ! m = queue ?w1 ! m"
    using d1 assms by (intro emitStatus_other) simp_all
  then show ?thesis
    using assms by (simp add: runJobStart_def Let_def modifyJob_nth split: option.split)
qed

lemma processNextResume_dispatched:
  assumes "distinct (map j_id (queue w))"
  shows "dispatched w (processNextResume now w)"
proof (cases "findIndex (\<lambda>job. j_status job = Queued) (queue w)")
  case None
  then show ?thesis by (simp add: dispatched_def processNextResume_def processNext_def)
next
  case (Some k)
  then have k: "k < length (queue w)" by (auto dest: findIndex_SomeD)
  let ?w0 = "w\<lparr>awaiting := Idle, processing := True\<rparr>"
  have eq: "processNextResume now w = runJobStart now k ?w0"
    using Some by (simp add: processNextResume_def processNext_def)
  have "\<forall>m < length (queue w). m \<noteq> k \<longrightarrow> queue (runJobStart now k ?w0) ! m = queue w ! m"
    using runJobStart_other_job [of ?w0 k _ now] assms k by simp
  moreover have "j_status (queue (runJobStart now k ?w0) ! k) = Running"
    using k by (simp add: runJobStart_job)
  moreover have "awaiting (runJobStart now k ?w0) = AwaitInsight k
      \<or> awaiting (runJobStart now k ?w0) = AwaitEnvironment k"
    by (rule runJobStart_awaiting)
  ultimately show ?thesis using Some by (simp add: dispatched_def eq)
qed

lemma processNextResume_length [simp]:
  "length (queue (processNextResume now w)) = length (queue w)"
  by (simp add: processNextResume_def processNext_def split: option.split)

lemma processNextResume_emitted:
  "\<exists>es. emitted (processNextResume now w) = emitted w @ es"
  by (simp add: processNextResume_def processNext_def runJobStart_emitted split: option.split)

lemma findIndex_cong_status:
  assumes "length q' = length q" "\<And>m. m < length q \<Longrightarrow> (j_status (q' ! m) = Queued) = (j_status (q ! m) = Queued)"
  shows "findIndex (\<lambda>job. j_status job = Queued) q' = findIndex (\<lambda>job. j_status job = Queued) q"
proof (cases "findIndex (\<lambda>job. j_status job = Queued) q")
  case None
  then have "\<forall>x\<in>set q. j_status x \<noteq> Queued" by (simp add: findIndex_None_iff)
  then have "\<forall>m<length q. j_status (q ! m) \<noteq> Queued" by simp
  with assms have "\<forall>m<length q'. j_status (q' ! m) \<noteq> Queued" by simp
  then have "\<forall>x\<in>set q'. j_status x \<noteq> Queued" by (auto simp: in_set_conv_nth)
  then have "findIndex (\<lambda>job. j_status job = Queued) q' = None" by (simp add: findIndex_None_iff)
  with None show ?thesis by simp
next
  case (Some k)
  from findIndex_SomeD [OF this] assms
  have "k < length q'" "j_status (q' ! k) = Queued" "\<forall>j<k. j_status (q' ! j) \<noteq> Queued"
    by auto
  then show ?thesis using Some by (simp add: findIndex_least)
qed

lemma closeHandler_completed:
  assumes "idx < length (queue w)" and "code \<noteq> Some 0"
  shows "CompletedPayload (j_id (queue w ! idx)) False None (Some (exitPrefix @ showCode code))
           \<in> set (emitted (closeHandler now idx od code w))"
  using assms by (simp add: closeHandler_def Let_def modifyJob_nth appendLog_id)

lemma errorHandler_completed:
  assumes "idx < length (queue w)"
  shows "CompletedPayload (j_id (queue w ! idx)) False None (Some message)
           \<in> set (emitted (errorHandler now idx message w))"
  using assms by (simp add: errorHandler_def Let_def modifyJob_nth appendLog_id)

lemma exitPrefix_nonempty: "exitPrefix \<noteq> []"
  by (simp add: exitPrefix_def)

text \<open>A job that is not waiting in the queue ends, and the next one is taken.\<close>

lemma settle_after:
  assumes len: "length (queue w1) = length (queue w)"
    and ids: "distinct (map j_id (queue w1))"
    and idx: "idx < length (queue w)"
    and aw: "awaiting w1 = AwaitChild idx"
    and others: "\<And>m. m < length (queue w) \<Longrightarrow> m \<noteq> idx \<Longrightarrow> queue w1 ! m = queue w ! m"
    and nq: "j_status (queue w ! idx) \<noteq> Queued" "j_status (queue w1 ! idx) \<noteq> Queued"
  shows "queue (settle now idx w1) ! idx = queue w1 ! idx"
    and "case findIndex (\<lambda>job. j_status job = Queued) (queue w) of
           None \<Rightarrow> \<not> processing (settle now idx w1) \<and> awaiting (settle now idx w1) = Idle
         | Some k \<Rightarrow> processing (settle now idx w1)
             \<and> j_status (queue (settle now idx w1) ! k) = Running
             \<and> (awaiting (settle now idx w1) = AwaitInsight k
                \<or> awaiting (settle now idx w1) = AwaitEnvironment k)"
    and "\<exists>es. emitted (settle now idx w1) = emitted w1 @ es"
proof -
  have s: "settle now idx w1 = processNextResume now w1"
    using aw by (simp add: settle_def)
  have fi: "findIndex (\<lambda>job. j_status job = Queued) (queue w1)
              = findIndex (\<lambda>job. j_status job = Queued) (queue w)"
  proof (rule findIndex_cong_status [OF len])
    fix m assume "m < length (queue w)"
    then show "(j_status (queue w1 ! m) = Queued) = (j_status (queue w ! m) = Queued)"
      using others [of m] nq by (cases "m = idx") simp_all
  qed
  have d: "dispatched w1 (processNextResume now w1)"
    using ids by (rule processNextResume_dispatched)
  show "queue (settle now idx w1) ! idx = queue w1 ! idx"
  proof (cases "findIndex (\<lambda>job. j_status job = Queued) (queue w1)")
    case None
    with d show ?thesis by (simp add: dispatched_def s)
  next
    case (Some k)
    from findIndex_SomeD [OF Some] nq(2) have "k \<noteq> idx" by auto
    with d Some idx len show ?thesis by (simp add: dispatched_def s)
  qed
  show "case findIndex (\<lambda>job. j_status job = Queued) (queue w) of
           None \<Rightarrow> \<not> processing (settle now idx w1) \<and> awaiting (settle now idx w1) = Idle
         | Some k \<Rightarrow> processing (settle now idx w1)
             \<and> j_status (queue (settle now idx w1) ! k) = Running
             \<and> (awaiting (settle now idx w1) = AwaitInsight k
                \<or> awaiting (settle now idx w1) = AwaitEnvironment k)"
    using d unfolding dispatched_def fi s by (auto split: option.splits)
  show "\<exists>es. emitted (settle now idx w1) = emitted w1 @ es"
    unfolding s by (rule processNextResume_emitted)
qed

lemma settle_idle:
  "awaiting w1 \<noteq> AwaitChild idx \<Longrightarrow> settle now idx w1 = w1"
  by (simp add: settle_def)

lemma settle_job_kept:
  assumes ids: "distinct (map j_id (queue w1))"
    and idx: "idx < length (queue w1)"
    and nq: "j_status (queue w1 ! idx) \<noteq> Queued"
  shows "queue (settle now idx w1) ! idx = queue w1 ! idx"
    and "\<exists>es. emitted (settle now idx w1) = emitted w1 @ es"
proof -
  have d: "dispatched w1 (processNextResume now w1)"
    using ids by (rule processNextResume_dispatched)
  show "queue (settle now idx w1) ! idx = queue w1 ! idx"
  proof (cases "awaiting w1 = AwaitChild idx")
    case False
    then show ?thesis by (simp add: settle_def)
  next
    case True
    show ?thesis
    proof (cases "findIndex (\<lambda>job. j_status job = Queued) (queue w1)")
      case None
      with d True show ?thesis by (simp add: dispatched_def settle_def)
    next
      case (Some k)
      from findIndex_SomeD [OF Some] nq have "k \<noteq> idx" by auto
      with d Some idx True show ?thesis by (simp add: dispatched_def settle_def)
    qed
  qed
  show "\<exists>es. emitted (settle now idx w1) = emitted w1 @ es"
    using processNextResume_emitted [of now w1] by (cases "awaiting w1 = AwaitChild idx") (simp_all add: settle_def)
qed

subsection \<open>Trimming\<close>

lemma last_dropWhile: "dropWhile P xs \<noteq> [] \<Longrightarrow> last (dropWhile P xs) = last xs"
proof -
  assume a: "dropWhile P xs \<noteq> []"
  have "last xs = last (takeWhile P xs @ dropWhile P xs)" by simp
  also have "\<dots> = last (dropWhile P xs)" using a by (rule last_appendR)
  finally show ?thesis by simp
qed

lemma trim_idem: "trim (trim s) = trim s"
proof -
  let ?P = isWhiteSpace
  let ?u = "dropWhile ?P s"
  let ?v = "dropWhile ?P (rev ?u)"
  have t: "trim s = rev ?v" by (simp add: trim_def)
  have v_hd: "?v = [] \<or> \<not> ?P (hd ?v)" using hd_dropWhile [of ?P "rev ?u"] by blast
  have front: "dropWhile ?P (rev ?v) = rev ?v"
  proof (cases "?v = []")
    case True
    show ?thesis unfolding True by simp
  next
    case False
    then have u: "?u \<noteq> []" by (metis dropWhile.simps(1) rev.simps(1))
    have "hd (rev ?v) = last ?v" using False by (simp add: hd_rev)
    also have "\<dots> = last (rev ?u)" using False by (rule last_dropWhile)
    also have "\<dots> = hd ?u" using u by (simp add: last_rev)
    finally have "\<not> ?P (hd (rev ?v))" using hd_dropWhile [of ?P s] u by simp
    then show ?thesis by (simp add: dropWhile_eq_self_iff)
  qed
  have "trim (rev ?v) = rev (dropWhile ?P (rev (rev ?v)))"
    unfolding trim_def front ..
  also have "\<dots> = rev ?v" using v_hd by (simp add: dropWhile_eq_self_iff)
  finally show ?thesis by (simp add: t)
qed

lemma history_storeUpdate:
  "history (storeUpdate now i d w) =
     map (\<lambda>r. if r_id r = i then applyPatch now d r else r) (history w)"
  by (simp add: storeUpdate_def updateHistoryRecord_def Let_def)

lemma applyPatch_id [simp]: "r_id (applyPatch now d r) = r_id r"
  by (simp add: applyPatch_def)

lemma applyPatch_logs:
  "r_logs (applyPatch now d r) = (case p_logs d of None \<Rightarrow> r_logs r | Some l \<Rightarrow> l)"
  by (simp add: applyPatch_def)

lemma p_logs_noPatch [simp]:
  "p_logs (noPatch\<lparr>p_logs := x\<rparr>) = x"
  "p_logs (noPatch\<lparr>p_status := s, p_progress := p\<rparr>) = None"
  by (simp_all add: noPatch_def)

lemma storedLogs_storeUpdate_logs:
  "storedLogs i l (storeUpdate now i (noPatch\<lparr>p_logs := Some l\<rparr>) w)"
  unfolding storedLogs_def history_storeUpdate
proof
  fix r
  assume "r \<in> set (map (\<lambda>r. if r_id r = i then applyPatch now (noPatch\<lparr>p_logs := Some l\<rparr>) r else r)
                      (history w))"
  then obtain r0 where r0: "r0 \<in> set (history w)"
      "r = (if r_id r0 = i then applyPatch now (noPatch\<lparr>p_logs := Some l\<rparr>) r0 else r0)"
    by auto
  show "r_id r = i \<longrightarrow> r_logs r = l"
    unfolding r0(2) by (simp add: applyPatch_logs)
qed

lemma storedLogs_storeUpdate_other:
  assumes "p_logs d = None" and "storedLogs i l w"
  shows "storedLogs i l (storeUpdate now i' d w)"
  unfolding storedLogs_def history_storeUpdate
proof
  fix r assume "r \<in> set (map (\<lambda>r. if r_id r = i' then applyPatch now d r else r) (history w))"
  then obtain r0 where r0: "r0 \<in> set (history w)"
      "r = (if r_id r0 = i' then applyPatch now d r0 else r0)"
    by auto
  from r0(2) assms(1) have "r_id r = r_id r0" "r_logs r = r_logs r0"
    by (simp_all add: applyPatch_logs split: if_splits)
  with assms(2) r0(1) show "r_id r = i \<longrightarrow> r_logs r = l"
    by (simp add: storedLogs_def)
qed

lemma history_emitStatus:
  "history (emitStatus now i st p w) =
     history (storeUpdate now i (noPatch\<lparr>p_status := Some st, p_progress := p\<rparr>) w)"
  by (simp add: emitStatus_def emit_def storeUpdate_def modifyJob_def Let_def split: option.split)

lemma storedLogs_emitStatus:
  "storedLogs i l w \<Longrightarrow> storedLogs i l (emitStatus now i' st p w)"
proof -
  assume a: "storedLogs i l w"
  have "storedLogs i l (storeUpdate now i' (noPatch\<lparr>p_status := Some st, p_progress := p\<rparr>) w)"
    using _ a by (rule storedLogs_storeUpdate_other) simp
  moreover have "history (emitStatus now i' st p w)
      = history (storeUpdate now i' (noPatch\<lparr>p_status := Some st, p_progress := p\<rparr>) w)"
    by (rule history_emitStatus)
  ultimately show ?thesis by (simp add: storedLogs_def)
qed

lemma storedLogs_setProgress:
  "storedLogs i l w \<Longrightarrow> storedLogs i l (setProgress now idx n w)"
proof -
  assume a: "storedLogs i l w"
  have "storedLogs i l (modifyJob idx (\<lambda>job. job\<lparr>j_progress := n\<rparr>) w)"
    using a by (simp add: storedLogs_def)
  then show ?thesis unfolding setProgress_def by (rule storedLogs_emitStatus)
qed

lemma storedLogs_tryParse:
  "storedLogs i l w \<Longrightarrow> storedLogs i l (tryParseDebugProgress now idx logLine w)"
  by (simp add: tryParseDebugProgress_eq storedLogs_setProgress split: option.split)

lemma storedLogs_tryUpdate:
  "storedLogs i l w \<Longrightarrow> storedLogs i l (tryUpdateProgressFromLog now idx logLine w)"
  by (simp add: tryUpdateProgressFromLog_eq storedLogs_setProgress split: option.split)

lemma appendLog_stored:
  assumes "idx < length (queue w)" and "trim message \<noteq> []"
  shows "storedLogs (j_id (queue w ! idx)) (j_logs (queue (appendLog now idx message w) ! idx))
           (appendLog now idx message w)"
proof -
  let ?l = "evict (j_logs (queue w ! idx) @ [trim message])"
  let ?w1 = "modifyJob idx
               (\<lambda>job. job\<lparr>j_logs := evict (j_logs job @ [trim message]), j_updatedAt := now\<rparr>) w"
  let ?w3 = "storeUpdate now (j_id (queue ?w1 ! idx))
               (noPatch\<lparr>p_logs := Some (j_logs (queue ?w1 ! idx))\<rparr>)
               (emit (ProgressPayload (j_id (queue ?w1 ! idx)) (trim message)) ?w1)"
  let ?w4 = "tryParseDebugProgress now idx (trim message) ?w3"
  have eq: "appendLog now idx message w = tryUpdateProgressFromLog now idx (trim message) ?w4"
    using assms(2) by (simp add: appendLog_def Let_def)
  have j1: "j_id (queue ?w1 ! idx) = j_id (queue w ! idx)" "j_logs (queue ?w1 ! idx) = ?l"
    using assms(1) by (simp_all add: modifyJob_nth)
  have "storedLogs (j_id (queue w ! idx)) ?l ?w3"
    unfolding j1 by (rule storedLogs_storeUpdate_logs)
  then have "storedLogs (j_id (queue w ! idx)) ?l (appendLog now idx message w)"
    unfolding eq by (intro storedLogs_tryUpdate storedLogs_tryParse)
  moreover have "j_logs (queue (appendLog now idx message w) ! idx) = ?l"
    using assms by (simp add: appendLog_logs)
  ultimately show ?thesis by simp
qed

lemmas manager_defs = run_def enqueue_def processNext_def processNextResume_def runJobStart_def
  runJobInsight_def emitStatus_def emit_def storeUpdate_def modifyJob_def
  updateHistoryRecord_def appendHistory_def createHistorySkeleton_def initialWorld_def noPatch_def
  applyPatch_def Let_def

lemma demoWorld_eq:
  "demoWorld =
     \<lparr>queue =
        [\<lparr>j_id = ascii ''job-a'', j_filePath = ascii ''/docs/a.pdf'', j_originalName = ascii ''a.pdf'',
          j_sourceType = Local, j_status = Running, j_progress = 0, j_logs = [],
          j_outputDir = None, j_savePath = None, j_error = None, j_downloadId = None,
          j_createdAt = ascii ''t1'', j_updatedAt = ascii ''t1''\<rparr>,
         \<lparr>j_id = ascii ''job-b'', j_filePath = ascii ''/docs/b.pdf'', j_originalName = ascii ''b.pdf'',
          j_sourceType = Local, j_status = Queued, j_progress = 0, j_logs = [],
          j_outputDir = None, j_savePath = None, j_error = None, j_downloadId = None,
          j_createdAt = ascii ''t2'', j_updatedAt = ascii ''t2''\<rparr>],
      processing = True,
      history =
        [\<lparr>r_id = ascii ''job-a'', r_title = ascii ''Paper'', r_authors = None,
          r_abstractSnippet = Some [], r_sourcePath = ascii ''/docs/a.pdf'',
          r_translatedPath = None, r_savePath = None, r_status = Running,
          r_errorMessage = None, r_progress = Some 0, r_createdAt = ascii ''t1'',
          r_updatedAt = ascii ''t3'', r_logs = []\<rparr>],
      emitted =
        [StatusPayload (ascii ''job-a'') Queued (Some 0),
         StatusPayload (ascii ''job-a'') Running (Some 0),
         StatusPayload (ascii ''job-b'') Queued (Some 0)],
      awaiting = AwaitEnvironment 0, children = []\<rparr>"
  by (simp add: demoWorld_def demoInput_def demoInsight_def manager_defs ascii_def)

lemma demoWorld_facts:
  "length (queue demoWorld) = 2"
  "map j_id (queue demoWorld) = [ascii ''job-a'', ascii ''job-b'']"
  "map j_status (queue demoWorld) = [Running, Queued]"
  "map j_progress (queue demoWorld) = [0, 0]"
  "awaiting demoWorld = AwaitEnvironment 0"
  "children demoWorld = []"
  by (simp_all add: demoWorld_eq)

lemma nth_from_map: "map f xs = ys \<Longrightarrow> m < length xs \<Longrightarrow> f (xs ! m) = ys ! m"
  by (metis nth_map)

lemma demoWorld_job0:
  "0 < length (queue demoWorld)" "j_status (queue demoWorld ! 0) = Running"
  "j_progress (queue demoWorld ! 0) = 0" "j_logs (queue demoWorld ! 0) = []"
  "j_id (queue demoWorld ! 0) = ascii ''job-a''"
  "distinct (map j_id (queue demoWorld))"
  by (simp_all add: demoWorld_eq ascii_def)

lemma demoWorld_job1:
  "Suc 0 < length (queue demoWorld)" "j_status (queue demoWorld ! Suc 0) = Queued"
  by (simp_all add: demoWorld_eq)

lemma demoSpawned_eq:
  "demoSpawned =
     (appendLog (ascii ''t4'') 0
        (commandPrefix @ ascii ''babeldoc'' @ ascii '' '' @
         joinWith (ascii '' '')
           (buildArgs (l_settings demoLaunch) (ascii ''/docs/a.pdf'') (ascii ''/data/translations/job-a'')))
        demoWorld)
     \<lparr>children := [(0, ascii ''/data/translations/job-a'')], awaiting := AwaitChild 0\<rparr>"
proof -
  have l: "l_outcome demoLaunch = Spawned" "l_sep demoLaunch = ascii ''/''" "l_userData demoLaunch = ascii ''/data''"
    "e_babeldocPath (l_environment demoLaunch) = ascii ''babeldoc''"
    by (simp_all add: demoLaunch_def)
  have j: "j_id (queue demoWorld ! 0) = ascii ''job-a''" "j_filePath (queue demoWorld ! 0) = ascii ''/docs/a.pdf''"
    by (simp_all add: demoWorld_eq)
  have od: "joinWith (ascii ''/'') [ascii ''/data'', ascii ''translations'', ascii ''job-a'']
      = ascii ''/data/translations/job-a''"
    by (simp add: ascii_def)
  show ?thesis
    by (simp add: demoSpawned_def demoWorld_facts runJobLaunch_def Let_def l j) (simp add: ascii_def)
qed

lemma demoSpawned_facts:
  "length (queue demoSpawned) = 2"
  "distinct (map j_id (queue demoSpawned))"
  "j_id (queue demoSpawned ! 0) = ascii ''job-a''"
  "j_status (queue demoSpawned ! 0) = Running"
  "j_status (queue demoSpawned ! Suc 0) = Queued"
  "awaiting demoSpawned = AwaitChild 0"
  "map_of (children demoSpawned) 0 = Some (ascii ''/data/translations/job-a'')"
  using demoWorld_job0 demoWorld_job1
  by (simp_all add: demoSpawned_eq appendLog_status appendLog_other_job appendLog_id demoWorld_facts)

lemma demoSpawned_next:
  "findIndex (\<lambda>job. j_status job = Queued) (queue demoSpawned) = Some (Suc 0)"
  by (rule findIndex_least) (simp_all add: demoSpawned_facts)

subsection \<open>The directory that the listeners close over\<close>

lemma runJobLaunch_children:
  assumes "l_outcome launch = Spawned"
  shows "children (runJobLaunch now idx launch w) =
           children w @ [(idx, joinWith (l_sep launch)
                                 [l_userData launch, ascii ''translations'', j_id (queue w ! idx)])]"
    and "awaiting (runJobLaunch now idx launch w) = AwaitChild idx"
  using assms by (simp_all add: runJobLaunch_def Let_def)

subsection \<open>Evaluating the rules on the concrete lines\<close>

lemmas line_defs = overallProgressOf_def parseFloat_def decimalOf_def digitsValue_def
  toDouble_def binaryExponent_def pow2_def roundHalfEven_def bitLength.simps mathRound_def
  matchStage_def progressStages_def ascii_def isWhiteSpace_def trim_def isDigit_def
  isDigitOrDot_def startsWith_def overallProgressKey_def captureAt_def canonicalize_def
  Let_def


lemma demoOverLine_facts:
  "matchOverallProgress demoOverLine = Some (ascii ''100.4'')"
  "parseFloat (ascii ''100.4'') = Finite (3532510957718733 / 35184372088832)"
  "overallProgressOf demoOverLine = Some 100"
  by (simp_all add: demoOverLine_def line_defs)

lemma demoLongLine_facts:
  "matchOverallProgress demoLongLine = Some (ascii ''100.49999999999999999999'')"
  "parseFloat (ascii ''100.49999999999999999999'') = Finite (201 / 2)"
  "overallProgressOf demoLongLine = Some 101"
  by (simp_all add: demoLongLine_def line_defs)

text \<open>
  A literal just below 100.5 with more digits than a double holds is read as the
  double 100.5, which rounds to 101: the progress stays.
\<close>

lemma long_literal_not_applied:
  "j_progress (queue (tryParseDebugProgress (ascii ''t5'') 0 demoLongLine demoWorld) ! 0) = 0"
  using demoWorld_job0 by (simp add: tryParse_progress demoLongLine_facts)

lemma demoPercentLine_facts:
  "trim demoPercentLine = demoPercentLine"
  "demoPercentLine \<noteq> []"
  "overallProgressOf demoPercentLine = Some 75"
  "matchStage demoPercentLine = None"
  by (simp_all add: demoPercentLine_def line_defs)

lemma demoStageLine_facts:
  "trim demoStageLine = demoStageLine"
  "demoStageLine \<noteq> []"
  "overallProgressOf demoStageLine = None"
  "matchStage demoStageLine = Some 60"
  by (simp_all add: demoStageLine_def line_defs)

lemma mathRound_le_100: "mathRound x \<le> 100 \<longleftrightarrow> x < 201 / 2"
proof -
  have "mathRound x \<le> 100 \<longleftrightarrow> x + 1 / 2 < 101"
    unfolding mathRound_def by (simp add: floor_le_iff)
  then show ?thesis by auto
qed

subsection \<open>Saving, the store, and chunks of output\<close>

lemma markJobSaved_absent:
  assumes "\<forall>item\<in>set (queue w). j_id item \<noteq> jobId"
  shows "markJobSaved now jobId savePath w = (None, w)"
proof -
  have "findIndex (\<lambda>item. j_id item = jobId) (queue w) = None"
    using assms by (simp add: findIndex_None_iff)
  then show ?thesis by (simp add: markJobSaved_def)
qed

lemma markJobSaved_found:
  assumes "findIndex (\<lambda>item. j_id item = jobId) (queue w) = Some k"
  shows "fst (markJobSaved now jobId savePath w) =
           Some ((queue w ! k)\<lparr>j_status := Success, j_progress := 100,
                   j_savePath := Some savePath, j_error := None, j_updatedAt := now\<rparr>)"
    and "queue (snd (markJobSaved now jobId savePath w)) =
           (queue w)[k := (queue w ! k)\<lparr>j_status := Success, j_progress := 100,
                   j_savePath := Some savePath, j_error := None, j_updatedAt := now\<rparr>]"
    and "processing (snd (markJobSaved now jobId savePath w)) = processing w"
    and "awaiting (snd (markJobSaved now jobId savePath w)) = awaiting w"
    and "children (snd (markJobSaved now jobId savePath w)) = children w"
proof -
  let ?saved = "(queue w ! k)\<lparr>j_status := Success, j_progress := 100,
                   j_savePath := Some savePath, j_error := None, j_updatedAt := now\<rparr>"
  let ?w1 = "modifyJob k (\<lambda>job. job\<lparr>j_status := Success, j_progress := 100,
                        j_savePath := Some savePath, j_error := None, j_updatedAt := now\<rparr>) w"
  from findIndex_SomeD [OF assms]
  have k: "k < length (queue w)" "j_id (queue w ! k) = jobId" "\<forall>j<k. j_id (queue w ! j) \<noteq> jobId"
    by auto
  have q1: "queue ?w1 = (queue w)[k := ?saved]" by (simp add: modifyJob_def)
  have id1: "j_id (queue ?w1 ! k) = jobId" using k by (simp add: q1)
  have f1: "findIndex (\<lambda>item. j_id item = jobId) (queue ?w1) = Some k"
  proof (rule findIndex_least)
    show "k < length (queue ?w1)" using k by simp
    show "j_id (queue ?w1 ! k) = jobId" by (rule id1)
    show "\<forall>j<k. j_id (queue ?w1 ! j) \<noteq> jobId" using k by (simp add: q1)
  qed
  have "queue (emitStatus now jobId Success (Some 100) ?w1)
      = (queue ?w1)[k := statusSetter now Success (Some 100) (queue ?w1 ! k)]"
    using f1 by (simp add: queue_emitStatus)
  also have "\<dots> = (queue w)[k := ?saved]"
  proof -
    have "statusSetter now Success (Some 100) ?saved = ?saved"
      by (cases "queue w ! k") (simp add: statusSetter_def)
    then show ?thesis unfolding q1 using k by simp
  qed
  finally have q2: "queue (emitStatus now jobId Success (Some 100) ?w1) = (queue w)[k := ?saved]" .
  have eq: "markJobSaved now jobId savePath w =
      (Some (queue (emitStatus now jobId Success (Some 100) ?w1) ! k),
       emitStatus now jobId Success (Some 100) ?w1)"
    using assms id1 by (simp add: markJobSaved_def Let_def)
  show "fst (markJobSaved now jobId savePath w) = Some ?saved"
    using k by (simp add: eq q2)
  show "queue (snd (markJobSaved now jobId savePath w)) = (queue w)[k := ?saved]"
    by (simp add: eq q2)
  show "processing (snd (markJobSaved now jobId savePath w)) = processing w"
    "awaiting (snd (markJobSaved now jobId savePath w)) = awaiting w"
    "children (snd (markJobSaved now jobId savePath w)) = children w"
    by (simp_all add: eq)
qed

lemma storeCall_bound: "length h \<le> 500 \<Longrightarrow> length (storeCall c h) \<le> 500"
proof (cases c)
  case (AppendHistory entry)
  then show ?thesis by (simp add: appendHistory_def)
next
  case (UpdateHistoryRecord now i data)
  assume "length h \<le> 500"
  with UpdateHistoryRecord show ?thesis by (simp add: updateHistoryRecord_def Let_def)
next
  case (RemoveHistoryRecord i)
  assume a: "length h \<le> 500"
  have "length (filter (\<lambda>record. r_id record \<noteq> i) h) \<le> length h" by (rule length_filter_le)
  then have "length (filter (\<lambda>record. r_id record \<noteq> i) h) \<le> 500" using a by (rule order_trans)
  with RemoveHistoryRecord show ?thesis by (simp add: removeHistoryRecord_def)
qed

lemma storeCalls_bound: "length h \<le> 500 \<Longrightarrow> length (storeCalls calls h) \<le> 500"
  unfolding storeCalls_def
proof (induction calls arbitrary: h)
  case Nil
  then show ?case by simp
next
  case (Cons c calls)
  from Cons.prems have "length (storeCall c h) \<le> 500" by (rule storeCall_bound)
  then have "length (foldl (\<lambda>h c. storeCall c h) (storeCall c h) calls) \<le> 500" by (rule Cons.IH)
  then show ?case by simp
qed

lemma demoChunk_facts:
  "trim demoChunk = ascii ''Parse Page Layout'' @ [10] @ ascii ''Translate Paragraphs''"
  "trim (ascii ''Parse Page Layout'' @ [10] @ ascii ''Translate Paragraphs'')
     = ascii ''Parse Page Layout'' @ [10] @ ascii ''Translate Paragraphs''"
  "specLines [] demoChunk = [ascii ''Parse Page Layout'', ascii ''Translate Paragraphs'']"
  "trim (ascii ''Parse Page Layout'') = ascii ''Parse Page Layout''"
  "trim (ascii ''Translate Paragraphs'') = ascii ''Translate Paragraphs''"
  by (simp_all add: demoChunk_def trim_def isWhiteSpace_def ascii_def)

lemma dataHandler_eq: "dataHandler now idx chunk w = appendLog now idx chunk w"
  by (simp add: dataHandler_def appendLog_def trim_idem)

lemma demoSpawned_logs: "length (j_logs (queue demoSpawned ! 0)) \<le> 1"
  using demoWorld_job0 by (simp add: demoSpawned_eq appendLog_logs evict_def)

subsection \<open>One running job, as long as no run is rejected early\<close>

lemma processNextResume_ids [simp]:
  "map j_id (queue (processNextResume now w)) = map j_id (queue w)"
  by (simp add: processNextResume_def processNext_def split: option.split)

lemma processNextResume_children [simp]:
  "children (processNextResume now w) = children w"
  by (simp add: processNextResume_def processNext_def split: option.split)

lemma dispatch_wellRun:
  assumes ids: "distinct (map j_id (queue w))"
    and none: "\<forall>m < length (queue w). j_status (queue w ! m) \<noteq> Running"
    and ch: "\<forall>c \<in> set (children w). fst c < length (queue w)"
  shows "wellRun (processNextResume now w)"
proof -
  let ?w' = "processNextResume now w"
  have d: "dispatched w ?w'" using ids by (rule processNextResume_dispatched)
  have len: "length (queue ?w') = length (queue w)" by simp
  show ?thesis
  proof (cases "findIndex (\<lambda>job. j_status job = Queued) (queue w)")
    case None
    with d have f: "\<not> processing ?w'" "awaiting ?w' = Idle" "queue ?w' = queue w"
      by (simp_all add: dispatched_def)
    show ?thesis
      unfolding wellRun_def using ids none ch f by simp
  next
    case (Some k)
    from findIndex_SomeD [OF Some] have k: "k < length (queue w)" by simp
    from d Some have f: "processing ?w'" "j_status (queue ?w' ! k) = Running"
      "awaiting ?w' = AwaitInsight k \<or> awaiting ?w' = AwaitEnvironment k"
      "\<forall>m < length (queue w). m \<noteq> k \<longrightarrow> queue ?w' ! m = queue w ! m"
      by (simp_all add: dispatched_def)
    have run: "\<forall>m < length (queue ?w'). j_status (queue ?w' ! m) = Running \<longrightarrow> m = k"
    proof (intro allI impI)
      fix m assume m: "m < length (queue ?w')" "j_status (queue ?w' ! m) = Running"
      show "m = k"
      proof (rule ccontr)
        assume "m \<noteq> k"
        with f(4) m(1) have "queue ?w' ! m = queue w ! m" by simp
        with m none show False by simp
      qed
    qed
    have "distinct (map j_id (queue ?w'))" using ids by simp
    moreover have "\<forall>c \<in> set (children ?w'). fst c < length (queue ?w')" using ch by simp
    ultimately show ?thesis
      unfolding wellRun_def using run f(1,3) k len by auto
  qed
qed

lemma wellRun_idle_none_running:
  assumes "wellRun w" and "awaiting w = Idle"
  shows "\<forall>m < length (queue w). j_status (queue w ! m) \<noteq> Running"
  using assms unfolding wellRun_def by auto

lemma appendLog_statuses:
  assumes "distinct (map j_id (queue w))" "idx < length (queue w)" "m < length (queue w)"
  shows "j_status (queue (appendLog now idx message w) ! m) = j_status (queue w ! m)"
proof (cases "m = idx")
  case True
  with assms show ?thesis by (simp add: appendLog_status)
next
  case False
  with assms show ?thesis by (simp add: appendLog_other_job)
qed

lemma wellRun_frame:
  assumes w: "wellRun w"
    and len: "length (queue w') = length (queue w)"
    and ids: "map j_id (queue w') = map j_id (queue w)"
    and st: "\<And>m. m < length (queue w) \<Longrightarrow> j_status (queue w' ! m) = Running
                 \<Longrightarrow> j_status (queue w ! m) = Running"
    and fl: "processing w' = processing w" "awaiting w' = awaiting w"
    and ch: "set (children w') \<subseteq> set (children w)"
  shows "wellRun w'"
  using w st ch unfolding wellRun_def len ids fl by (auto simp: subset_iff)

lemma step_ChildData_wellRun:
  assumes "wellRun w"
  shows "wellRun (step (ChildData now idx chunk) w)"
proof (cases "map_of (children w) idx")
  case None
  with assms show ?thesis by simp
next
  case (Some od)
  then have "(idx, od) \<in> set (children w)" by (rule map_of_SomeD)
  with assms have idx: "idx < length (queue w)" unfolding wellRun_def by auto
  have d: "distinct (map j_id (queue w))" using assms by (simp add: wellRun_def)
  have eq: "step (ChildData now idx chunk) w = appendLog now idx chunk w"
    using Some by (simp add: dataHandler_eq)
  show ?thesis
    unfolding eq using assms
  proof (rule wellRun_frame)
    fix m assume "m < length (queue w)" "j_status (queue (appendLog now idx chunk w) ! m) = Running"
    then show "j_status (queue w ! m) = Running"
      using d idx by (simp add: appendLog_statuses)
  qed simp_all
qed

lemma step_InsightResolved_wellRun:
  assumes "wellRun w"
  shows "wellRun (step (InsightResolved now insight) w)"
proof (cases "awaiting w")
  case (AwaitInsight idx)
  then have eq: "step (InsightResolved now insight) w = runJobInsight now idx insight w" by simp
  show ?thesis
    unfolding eq using assms AwaitInsight
    by (auto simp: wellRun_def runJobInsight_def)
qed (use assms in simp_all)

lemma step_EnvironmentResolved_wellRun:
  assumes "wellRun w" and "l_outcome launch = Spawned"
  shows "wellRun (step (EnvironmentResolved now launch) w)"
proof (cases "awaiting w")
  case (AwaitEnvironment idx)
  with assms(1) have idx: "idx < length (queue w)" unfolding wellRun_def by auto
  have d: "distinct (map j_id (queue w))" using assms by (simp add: wellRun_def)
  obtain msg od where eq: "step (EnvironmentResolved now launch) w =
      (appendLog now idx msg w)\<lparr>children := children w @ [(idx, od)], awaiting := AwaitChild idx\<rparr>"
    using AwaitEnvironment assms(2) by (simp add: runJobLaunch_def Let_def)
  have st: "\<And>m. m < length (queue w) \<Longrightarrow>
      j_status (queue (appendLog now idx msg w) ! m) = j_status (queue w ! m)"
    using d idx by (simp add: appendLog_statuses)
  show ?thesis
    unfolding eq using assms(1) AwaitEnvironment idx st
    by (auto simp: wellRun_def)
qed (use assms in simp_all)

lemma closeHandler_status:
  assumes "idx < length (queue w)"
  shows "j_status (queue (closeHandler now idx od code w) ! idx) \<noteq> Running"
    and "j_status (queue (closeHandler now idx od code w) ! idx) \<noteq> Queued"
  using assms closeHandler_zero(1) [of idx w now od] closeHandler_nonzero(1) [of idx w code now od]
  by (cases "code = Some 0"; simp)+

lemma settled_wellRun:
  assumes w: "wellRun w" and idx: "idx < length (queue w)"
    and len: "length (queue w1) = length (queue w)"
    and ids: "map j_id (queue w1) = map j_id (queue w)"
    and job: "j_status (queue w1 ! idx) \<noteq> Running"
    and others: "\<And>m. m < length (queue w) \<Longrightarrow> m \<noteq> idx \<Longrightarrow> queue w1 ! m = queue w ! m"
    and fl: "processing w1 = processing w" "awaiting w1 = awaiting w"
    and ch: "set (children w1) \<subseteq> set (children w)"
  shows "wellRun (settle now idx w1)"
proof (cases "awaiting w = AwaitChild idx")
  case False
  then have s: "settle now idx w1 = w1" by (simp add: settle_def fl)
  show ?thesis
    unfolding s using w len ids
  proof (rule wellRun_frame)
    fix m assume "m < length (queue w)" "j_status (queue w1 ! m) = Running"
    then show "j_status (queue w ! m) = Running"
      using others [of m] job by (cases "m = idx") simp_all
  qed (use fl ch in simp_all)
next
  case True
  then have s: "settle now idx w1 = processNextResume now w1" by (simp add: settle_def fl)
  have d: "distinct (map j_id (queue w1))" using w by (simp add: wellRun_def ids)
  have none: "\<forall>m < length (queue w1). j_status (queue w1 ! m) \<noteq> Running"
  proof (intro allI impI)
    fix m assume m: "m < length (queue w1)"
    show "j_status (queue w1 ! m) \<noteq> Running"
    proof (cases "m = idx")
      case True
      with job show ?thesis by simp
    next
      case False
      with m len others have e: "queue w1 ! m = queue w ! m" by simp
      have "j_status (queue w ! m) \<noteq> Running"
      proof
        assume "j_status (queue w ! m) = Running"
        with w m len have "awaiting w = AwaitInsight m \<or> awaiting w = AwaitEnvironment m
            \<or> awaiting w = AwaitChild m"
          unfolding wellRun_def by auto
        with True False show False by simp
      qed
      with e show ?thesis by simp
    qed
  qed
  have c: "\<forall>c \<in> set (children w1). fst c < length (queue w1)"
    using w ch unfolding wellRun_def len by (auto simp: subset_iff)
  show ?thesis unfolding s using d none c by (rule dispatch_wellRun)
qed

lemma step_ChildClose_wellRun:
  assumes "wellRun w"
  shows "wellRun (step (ChildClose now idx code) w)"
proof (cases "map_of (children w) idx")
  case None
  with assms show ?thesis by simp
next
  case (Some od)
  then have "(idx, od) \<in> set (children w)" by (rule map_of_SomeD)
  with assms have idx: "idx < length (queue w)" unfolding wellRun_def by auto
  have d: "distinct (map j_id (queue w))" using assms by (simp add: wellRun_def)
  let ?h = "closeHandler now idx od code w"
  let ?w1 = "?h\<lparr>children := filter (\<lambda>child. fst child \<noteq> idx) (children ?h)\<rparr>"
  have eq: "step (ChildClose now idx code) w = settle now idx ?w1"
    using Some by (simp add: Let_def)
  show ?thesis
    unfolding eq using assms idx
  proof (rule settled_wellRun)
    show "j_status (queue ?w1 ! idx) \<noteq> Running"
      using idx by (simp add: closeHandler_status)
    fix m assume "m < length (queue w)" "m \<noteq> idx"
    then show "queue ?w1 ! m = queue w ! m"
      using d idx by (simp add: closeHandler_other_job)
  qed auto
qed

lemma step_ChildError_wellRun:
  assumes "wellRun w"
  shows "wellRun (step (ChildError now idx message) w)"
proof (cases "map_of (children w) idx")
  case None
  with assms show ?thesis by simp
next
  case (Some od)
  then have "(idx, od) \<in> set (children w)" by (rule map_of_SomeD)
  with assms have idx: "idx < length (queue w)" unfolding wellRun_def by auto
  have d: "distinct (map j_id (queue w))" using assms by (simp add: wellRun_def)
  let ?w1 = "errorHandler now idx message w"
  have eq: "step (ChildError now idx message) w = settle now idx ?w1"
    using Some by simp
  show ?thesis
    unfolding eq using assms idx
  proof (rule settled_wellRun)
    show "j_status (queue ?w1 ! idx) \<noteq> Running"
      using idx by (simp add: errorHandler_job)
    fix m assume "m < length (queue w)" "m \<noteq> idx"
    then show "queue ?w1 ! m = queue w ! m"
      using d idx by (simp add: errorHandler_other_job)
  qed auto
qed

lemma step_MarkJobSaved_wellRun:
  assumes "wellRun w"
  shows "wellRun (step (MarkJobSaved now jobId savePath) w)"
proof (cases "findIndex (\<lambda>item. j_id item = jobId) (queue w)")
  case None
  with assms show ?thesis by (simp add: markJobSaved_def)
next
  case (Some k)
  from findIndex_SomeD [OF Some] have k: "k < length (queue w)" by simp
  note f = markJobSaved_found [OF Some, of now savePath]
  show ?thesis
    using assms
  proof (rule wellRun_frame)
    show "map j_id (queue (step (MarkJobSaved now jobId savePath) w)) = map j_id (queue w)"
      using k by (intro nth_equalityI) (simp_all add: f(2) nth_list_update)
    fix m assume "m < length (queue w)"
      "j_status (queue (step (MarkJobSaved now jobId savePath) w) ! m) = Running"
    then show "j_status (queue w ! m) = Running"
      by (cases "m = k") (simp_all add: f(2))
  qed (simp_all add: f)
qed

lemma findIndex_append_fresh:
  assumes "\<forall>x\<in>set xs. \<not> P x" and "P y"
  shows "findIndex P (xs @ [y]) = Some (length xs)"
proof (rule findIndex_least)
  show "length xs < length (xs @ [y])" by simp
  show "P ((xs @ [y]) ! length xs)" using assms(2) by simp
  show "\<forall>j<length xs. \<not> P ((xs @ [y]) ! j)" using assms(1) by (simp add: nth_append)
qed

lemma enqueue_queue:
  assumes "uuid \<notin> set (map j_id (queue w))"
  shows "\<exists>item. j_id item = uuid \<and> j_status item = Queued
           \<and> queue (emitStatus now uuid Queued (Some 0) (w\<lparr>queue := queue w @ [item]\<rparr>)) = queue w @ [item]
           \<and> step (Enqueue now uuid jobInput) w
               = processNext now (emitStatus now uuid Queued (Some 0) (w\<lparr>queue := queue w @ [item]\<rparr>))"
proof -
  let ?item = "\<lparr>j_id = uuid, j_filePath = in_filePath jobInput,
                  j_originalName = in_originalName jobInput,
                  j_sourceType = in_sourceType jobInput, j_status = Queued, j_progress = 0,
                  j_logs = [], j_outputDir = None, j_savePath = None, j_error = None,
                  j_downloadId = in_downloadId jobInput, j_createdAt = now, j_updatedAt = now\<rparr>"
  have f: "findIndex (\<lambda>item. j_id item = uuid) (queue w @ [?item]) = Some (length (queue w))"
    using assms by (intro findIndex_append_fresh) auto
  have "queue (emitStatus now uuid Queued (Some 0) (w\<lparr>queue := queue w @ [?item]\<rparr>)) = queue w @ [?item]"
    by (simp add: queue_emitStatus f statusSetter_def)
  moreover have "step (Enqueue now uuid jobInput) w
      = processNext now (emitStatus now uuid Queued (Some 0) (w\<lparr>queue := queue w @ [?item]\<rparr>))"
    by (simp add: enqueue_def Let_def)
  ultimately show ?thesis
    by (intro exI [of _ ?item]) simp
qed

lemma processNext_idle:
  assumes "\<not> processing w" and "awaiting w = Idle"
  shows "processNext now w = processNextResume now w"
proof -
  have "w\<lparr>processing := False, awaiting := Idle\<rparr> = w"
    using assms by (cases w) simp
  then show ?thesis by (simp add: processNextResume_def)
qed

lemma step_Enqueue_wellRun:
  assumes w: "wellRun w" and fresh: "uuid \<notin> set (map j_id (queue w))"
  shows "wellRun (step (Enqueue now uuid jobInput) w)"
proof -
  from enqueue_queue [OF fresh, of now jobInput]
  obtain item where item: "j_id item = uuid" "j_status item = Queued"
    and q: "queue (emitStatus now uuid Queued (Some 0) (w\<lparr>queue := queue w @ [item]\<rparr>)) = queue w @ [item]"
    and st: "step (Enqueue now uuid jobInput) w
               = processNext now (emitStatus now uuid Queued (Some 0) (w\<lparr>queue := queue w @ [item]\<rparr>))"
    by blast
  let ?w2 = "emitStatus now uuid Queued (Some 0) (w\<lparr>queue := queue w @ [item]\<rparr>)"
  have fl: "processing ?w2 = processing w" "awaiting ?w2 = awaiting w" "children ?w2 = children w"
    by simp_all
  have d2: "distinct (map j_id (queue ?w2))"
    using w fresh item(1) by (simp add: q wellRun_def)
  have run2: "\<And>m. m < length (queue ?w2) \<Longrightarrow> j_status (queue ?w2 ! m) = Running
      \<Longrightarrow> m < length (queue w) \<and> j_status (queue w ! m) = Running"
    using item(2) by (auto simp: q nth_append split: if_splits)
  have ch2: "\<forall>c \<in> set (children ?w2). fst c < length (queue ?w2)"
    using w by (auto simp: q wellRun_def)
  show ?thesis
  proof (cases "processing w")
    case True
    then have e: "processNext now ?w2 = ?w2" by (simp add: processNext_def)
    have "wellRun ?w2"
      unfolding wellRun_def
    proof (intro conjI)
      show "distinct (map j_id (queue ?w2))" by (rule d2)
      show "\<forall>m<length (queue ?w2). j_status (queue ?w2 ! m) = Running \<longrightarrow>
          awaiting ?w2 = AwaitInsight m \<or> awaiting ?w2 = AwaitEnvironment m \<or> awaiting ?w2 = AwaitChild m"
        using run2 w unfolding wellRun_def fl by blast
      show "processing ?w2 = (awaiting ?w2 \<noteq> Idle)"
        using w unfolding wellRun_def fl by blast
      show "\<forall>m. awaiting ?w2 = AwaitInsight m \<or> awaiting ?w2 = AwaitEnvironment m
          \<or> awaiting ?w2 = AwaitChild m \<longrightarrow> m < length (queue ?w2)"
        using w unfolding wellRun_def fl q by auto
      show "\<forall>c\<in>set (children ?w2). fst c < length (queue ?w2)" by (rule ch2)
    qed
    then show ?thesis unfolding st e .
  next
    case False
    with w have idle: "awaiting w = Idle" by (simp add: wellRun_def)
    have e: "processNext now ?w2 = processNextResume now ?w2"
      using False idle by (intro processNext_idle) simp_all
    have none: "\<forall>m < length (queue ?w2). j_status (queue ?w2 ! m) \<noteq> Running"
      using run2 wellRun_idle_none_running [OF w idle] by blast
    show ?thesis
      unfolding st e using d2 none ch2 by (rule dispatch_wellRun)
  qed
qed

lemma step_wellRun: "wellRun w \<Longrightarrow> admitted a w \<Longrightarrow> wellRun (step a w)"
proof (cases a)
  case (Enqueue now uuid jobInput)
  assume "wellRun w" "admitted a w"
  with Enqueue show ?thesis using step_Enqueue_wellRun [of w uuid now jobInput] by simp
next
  case (MarkJobSaved now jobId savePath)
  assume "wellRun w"
  with MarkJobSaved show ?thesis using step_MarkJobSaved_wellRun [of w now jobId savePath] by simp
next
  case (InsightResolved now insight)
  assume "wellRun w"
  with InsightResolved show ?thesis using step_InsightResolved_wellRun [of w now insight] by simp
next
  case (EnvironmentResolved now launch)
  assume "wellRun w" "admitted a w"
  with EnvironmentResolved show ?thesis
    using step_EnvironmentResolved_wellRun [of w launch now] by simp
next
  case (EnvironmentRejected now)
  assume "admitted a w"
  with EnvironmentRejected show ?thesis by simp
next
  case (ChildData now idx chunk)
  assume "wellRun w"
  with ChildData show ?thesis using step_ChildData_wellRun [of w now idx chunk] by simp
next
  case (ChildClose now idx code)
  assume "wellRun w"
  with ChildClose show ?thesis using step_ChildClose_wellRun [of w now idx code] by simp
next
  case (ChildError now idx message)
  assume "wellRun w"
  with ChildError show ?thesis using step_ChildError_wellRun [of w now idx message] by simp
qed

lemma run_wellRun: "wellRun w \<Longrightarrow> admissible actions w \<Longrightarrow> wellRun (run actions w)"
  unfolding run_def
proof (induction actions arbitrary: w)
  case Nil
  then show ?case by simp
next
  case (Cons a actions)
  from Cons.prems have "wellRun (step a w)" "admissible actions (step a w)"
    by (simp_all add: step_wellRun)
  then have "wellRun (foldl (\<lambda>w a. step a w) (step a w) actions)" by (rule Cons.IH)
  then show ?case by simp
qed

lemma wellRun_initialWorld: "wellRun initialWorld"
  by (simp add: wellRun_def initialWorld_def)

lemma one_running_without_rejection:
  assumes "admissible actions initialWorld"
    and "m < length (queue (run actions initialWorld))"
    and "n < length (queue (run actions initialWorld))"
    and "j_status (queue (run actions initialWorld) ! m) = Running"
    and "j_status (queue (run actions initialWorld) ! n) = Running"
  shows "m = n"
proof -
  have "wellRun (run actions initialWorld)"
    using wellRun_initialWorld assms(1) by (rule run_wellRun)
  then have r: "\<forall>k < length (queue (run actions initialWorld)).
      j_status (queue (run actions initialWorld) ! k) = Running \<longrightarrow>
        awaiting (run actions initialWorld) = AwaitInsight k
        \<or> awaiting (run actions initialWorld) = AwaitEnvironment k
        \<or> awaiting (run actions initialWorld) = AwaitChild k"
    unfolding wellRun_def by blast
  from r assms(2,4) have "awaiting (run actions initialWorld) = AwaitInsight m
        \<or> awaiting (run actions initialWorld) = AwaitEnvironment m
        \<or> awaiting (run actions initialWorld) = AwaitChild m"
    by blast
  moreover from r assms(3,5) have "awaiting (run actions initialWorld) = AwaitInsight n
        \<or> awaiting (run actions initialWorld) = AwaitEnvironment n
        \<or> awaiting (run actions initialWorld) = AwaitChild n"
    by blast
  ultimately show ?thesis by auto
qed

subsection \<open>A run that is rejected when \<open>spawn\<close> throws\<close>

lemma tryParse_no_completed:
  "filter isCompleted (emitted (tryParseDebugProgress now idx l w)) = filter isCompleted (emitted w)"
  by (simp add: tryParseDebugProgress_eq setProgress_emitted split: option.split)

lemma tryUpdate_no_completed:
  "filter isCompleted (emitted (tryUpdateProgressFromLog now idx l w)) = filter isCompleted (emitted w)"
  by (simp add: tryUpdateProgressFromLog_eq setProgress_emitted split: option.split)

lemma appendLog_no_completed:
  "filter isCompleted (emitted (appendLog now idx message w)) = filter isCompleted (emitted w)"
  by (simp add: appendLog_def Let_def tryParse_no_completed tryUpdate_no_completed)

lemma demoThrown_eq:
  "\<exists>message. demoThrown = processNextResume (ascii ''t4'') (appendLog (ascii ''t4'') 0 message demoWorld)"
  by (simp add: demoThrown_def demoWorld_facts runJobLaunch_def Let_def demoLaunch_def)
     (rule exI, rule refl)

subsection \<open>The two listeners on a failure\<close>

text \<open>
  Once the child exists, both listeners do what a failure calls for. When the child of the
  job that \<open>runJob\<close> waits for closes with a code other than 0 (\<open>null\<close>
  included), or its \<open>error\<close> event fires, the job becomes \<open>failed\<close> with
  progress 100; its \<open>error\<close> is the exit message, which ends in the code and is never
  empty, or the text of the error as it was delivered; a \<open>completed\<close> payload with
  \<open>success = false\<close> and that message has been emitted; and the first job that was
  waiting in the queue is now running, the manager being idle when none was waiting.
\<close>

theorem failure_keeps_dispatching:
  assumes "idx < length (queue w)" and "distinct (map j_id (queue w))"
    and "map_of (children w) idx = Some od" and "awaiting w = AwaitChild idx"
    and "j_status (queue w ! idx) \<noteq> Queued"
    and "a = ChildClose now idx code \<and> code \<noteq> Some 0 \<and> msg = exitPrefix @ showCode code
         \<or> a = ChildError now idx msg"
  shows "(let w' = step a w; job' = queue w' ! idx
          in j_status job' = Failed \<and> j_progress job' = 100 \<and> j_error job' = Some msg
             \<and> exitPrefix @ showCode code \<noteq> []
             \<and> CompletedPayload (j_id (queue w ! idx)) False None (Some msg) \<in> set (emitted w')
             \<and> (case findIndex (\<lambda>job. j_status job = Queued) (queue w) of
                  None \<Rightarrow> \<not> processing w' \<and> awaiting w' = Idle
                | Some k \<Rightarrow> processing w' \<and> j_status (queue w' ! k) = Running
                    \<and> (awaiting w' = AwaitInsight k \<or> awaiting w' = AwaitEnvironment k)))"
proof -
  define w1 where "w1 =
    (if a = ChildError now idx msg then errorHandler now idx msg w
     else (closeHandler now idx od code w)
            \<lparr>children := filter (\<lambda>child. fst child \<noteq> idx)
                          (children (closeHandler now idx od code w))\<rparr>)"
  have st: "step a w = settle now idx w1"
    using assms(3,6) by (auto simp: w1_def Let_def)
  have len: "length (queue w1) = length (queue w)" by (simp add: w1_def)
  have ids: "distinct (map j_id (queue w1))" using assms(2) by (simp add: w1_def)
  have aw: "awaiting w1 = AwaitChild idx" using assms(4) by (simp add: w1_def)
  have others: "\<And>m. m < length (queue w) \<Longrightarrow> m \<noteq> idx \<Longrightarrow> queue w1 ! m = queue w ! m"
    using assms(1,2) by (simp add: w1_def closeHandler_other_job errorHandler_other_job)
  have job: "j_status (queue w1 ! idx) = Failed" "j_progress (queue w1 ! idx) = 100"
      "j_error (queue w1 ! idx) = Some msg"
      "CompletedPayload (j_id (queue w ! idx)) False None (Some msg) \<in> set (emitted w1)"
    using assms(1,6)
    by (auto simp: w1_def closeHandler_nonzero errorHandler_job closeHandler_completed
        errorHandler_completed)
  have nq1: "j_status (queue w1 ! idx) \<noteq> Queued" by (simp add: job)
  have keep: "queue (settle now idx w1) ! idx = queue w1 ! idx"
    using len ids assms(1) aw others assms(5) nq1 by (rule settle_after(1))
  have next_job: "case findIndex (\<lambda>job. j_status job = Queued) (queue w) of
           None \<Rightarrow> \<not> processing (settle now idx w1) \<and> awaiting (settle now idx w1) = Idle
         | Some k \<Rightarrow> processing (settle now idx w1)
             \<and> j_status (queue (settle now idx w1) ! k) = Running
             \<and> (awaiting (settle now idx w1) = AwaitInsight k
                \<or> awaiting (settle now idx w1) = AwaitEnvironment k)"
    using len ids assms(1) aw others assms(5) nq1 by (rule settle_after(2))
  have "\<exists>es. emitted (settle now idx w1) = emitted w1 @ es"
    using len ids assms(1) aw others assms(5) nq1 by (rule settle_after(3))
  then obtain es where es: "emitted (settle now idx w1) = emitted w1 @ es"
    by auto
  show ?thesis
    unfolding Let_def st using job next_job by (simp add: keep es exitPrefix_nonempty)
qed

theorem failure_witness:
  "0 < length (queue demoSpawned) \<and> distinct (map j_id (queue demoSpawned))
   \<and> map_of (children demoSpawned) 0 = Some (ascii ''/data/translations/job-a'')
   \<and> awaiting demoSpawned = AwaitChild 0 \<and> j_status (queue demoSpawned ! 0) = Running
   \<and> j_status (queue (step (ChildClose (ascii ''t5'') 0 (Some 1)) demoSpawned) ! 0) = Failed
   \<and> j_progress (queue (step (ChildClose (ascii ''t5'') 0 (Some 1)) demoSpawned) ! 0) = 100
   \<and> j_error (queue (step (ChildClose (ascii ''t5'') 0 (Some 1)) demoSpawned) ! 0)
       = Some (exitPrefix @ ascii ''1'')
   \<and> CompletedPayload (ascii ''job-a'') False None (Some (exitPrefix @ ascii ''1''))
       \<in> set (emitted (step (ChildClose (ascii ''t5'') 0 (Some 1)) demoSpawned))
   \<and> processing (step (ChildClose (ascii ''t5'') 0 (Some 1)) demoSpawned)
   \<and> j_status (queue (step (ChildClose (ascii ''t5'') 0 (Some 1)) demoSpawned) ! 1) = Running"
proof -
  have h: "0 < length (queue demoSpawned)" "distinct (map j_id (queue demoSpawned))"
    "map_of (children demoSpawned) 0 = Some (ascii ''/data/translations/job-a'')"
    "awaiting demoSpawned = AwaitChild 0" "j_status (queue demoSpawned ! 0) \<noteq> Queued"
    by (simp_all add: demoSpawned_facts)
  have a: "ChildClose (ascii ''t5'') 0 (Some 1) = ChildClose (ascii ''t5'') 0 (Some 1) \<and> Some (1::int) \<noteq> Some 0
      \<and> exitPrefix @ ascii ''1'' = exitPrefix @ showCode (Some 1)
      \<or> ChildClose (ascii ''t5'') 0 (Some 1) = ChildError (ascii ''t5'') 0 (exitPrefix @ ascii ''1'')"
    by (simp add: showCode_def natDigits.simps ascii_def)
  from failure_keeps_dispatching [OF h a] h show ?thesis
    by (simp add: Let_def demoSpawned_facts demoSpawned_next)
qed


section \<open>The claims\<close>

text \<open>
  C1. The dispatch step does take the first job that waits in the queue
  (\<open>processNextResume_dispatched\<close>), and as long as no \<open>runJob\<close> is rejected
  early at most one job has the status \<open>running\<close>
  (\<open>one_running_without_rejection\<close>); but the statuses say otherwise as soon as
  \<open>runJob\<close> rejects before the listeners of the child exist. Here two documents are enqueued,
  the insight for the first arrives and \<open>ensureEnvironment\<close> then rejects: the
  \<open>catch\<close> in \<open>processNext\<close> only logs, the first job keeps the status
  \<open>running\<close> that \<open>runJob\<close> gave it, and the second job is dispatched and is
  \<open>running\<close> as well, while no child process exists.
\<close>

theorem stalled_job_and_next_both_running:
  "map j_status
     (queue (run [Enqueue (ascii ''t1'') (ascii ''job-a'') (demoInput ''a.pdf''),
                  Enqueue (ascii ''t2'') (ascii ''job-b'') (demoInput ''b.pdf''),
                  InsightResolved (ascii ''t3'') demoInsight,
                  EnvironmentRejected (ascii ''t4'')] initialWorld))
     = [Running, Running]
   \<and> children (run [Enqueue (ascii ''t1'') (ascii ''job-a'') (demoInput ''a.pdf''),
                  Enqueue (ascii ''t2'') (ascii ''job-b'') (demoInput ''b.pdf''),
                  InsightResolved (ascii ''t3'') demoInsight,
                  EnvironmentRejected (ascii ''t4'')] initialWorld) = []
   \<and> awaiting (run [Enqueue (ascii ''t1'') (ascii ''job-a'') (demoInput ''a.pdf''),
                  Enqueue (ascii ''t2'') (ascii ''job-b'') (demoInput ''b.pdf''),
                  InsightResolved (ascii ''t3'') demoInsight,
                  EnvironmentRejected (ascii ''t4'')] initialWorld) = AwaitInsight 1"
  by (simp add: demoInput_def demoInsight_def manager_defs ascii_def)

text \<open>
  C2. Over any sequence of messages appended to a job, the progress of the job never
  goes down: the progress after a longer sequence is at least the progress after any
  shorter beginning of it. Each of the two rules alone leaves the progress where it was
  or raises it, since each assigns only a value strictly above the current one.
\<close>

theorem progress_monotone:
  assumes "idx < length (queue w)"
  shows "j_progress (queue (appendLogs idx ms w) ! idx)
           \<le> j_progress (queue (appendLogs idx (ms @ ms') w) ! idx)
         \<and> j_progress (queue w ! idx)
           \<le> j_progress (queue (tryParseDebugProgress now idx l w) ! idx)
         \<and> j_progress (queue w ! idx)
           \<le> j_progress (queue (tryUpdateProgressFromLog now idx l w) ! idx)"
proof (intro conjI)
  show "j_progress (queue (appendLogs idx ms w) ! idx)
           \<le> j_progress (queue (appendLogs idx (ms @ ms') w) ! idx)"
    unfolding appendLogs_append using assms by (intro appendLogs_progress_mono) simp
  show "j_progress (queue w ! idx) \<le> j_progress (queue (tryParseDebugProgress now idx l w) ! idx)"
    using assms by (simp add: tryParse_progress split: option.split)
  show "j_progress (queue w ! idx) \<le> j_progress (queue (tryUpdateProgressFromLog now idx l w) ! idx)"
    using assms by (simp add: tryUpdate_progress split: option.split)
qed

theorem progress_monotone_witness:
  "0 < length (queue demoWorld)
   \<and> j_progress (queue (appendLogs 0 [(ascii ''t5'', demoPercentLine)] demoWorld) ! 0) = 75
   \<and> j_progress (queue (appendLogs 0 ([(ascii ''t5'', demoPercentLine)] @ [(ascii ''t6'', demoStageLine)])
                            demoWorld) ! 0) = 75
   \<and> j_progress (queue (appendLogs 0 [(ascii ''t5'', demoPercentLine)] demoWorld) ! 0)
       \<le> j_progress (queue (appendLogs 0 ([(ascii ''t5'', demoPercentLine)] @ [(ascii ''t6'', demoStageLine)])
                            demoWorld) ! 0)"
proof -
  have h: "0 < length (queue demoWorld)"
    using demoWorld_job0 by simp
  have a: "j_progress (queue (appendLogs 0 [(ascii ''t5'', demoPercentLine)] demoWorld) ! 0) = 75"
    using demoWorld_job0
    by (simp add: appendLogs_def appendLog_progress lineProgress_def demoPercentLine_facts)
  have b: "j_progress (queue (appendLogs 0 ([(ascii ''t5'', demoPercentLine)] @ [(ascii ''t6'', demoStageLine)])
                            demoWorld) ! 0) = 75"
    using demoWorld_job0
    by (simp add: appendLogs_def appendLog_progress lineProgress_def demoPercentLine_facts
        demoStageLine_facts)
  from progress_monotone [OF h, of "[(ascii ''t5'', demoPercentLine)]" "[(ascii ''t6'', demoStageLine)]"]
  have "j_progress (queue (appendLogs 0 [(ascii ''t5'', demoPercentLine)] demoWorld) ! 0)
       \<le> j_progress (queue (appendLogs 0 ([(ascii ''t5'', demoPercentLine)] @ [(ascii ''t6'', demoStageLine)])
                            demoWorld) ! 0)"
    by blast
  with h a b show ?thesis by blast
qed




text \<open>
  C4, as amended. On a line where the pattern matches, the captured text is parsed
  to a double and the double is rounded to the nearest integer, a tie going up; that
  integer becomes the progress exactly when it is strictly above the current progress
  and the double is below 100.5 (the bound of 100 is tested on the rounded value); a
  capture that is not a number, one beyond the range of the doubles, a double from
  100.5 on, or a rounded value not above the current progress leaves the progress as it
  was.
\<close>

theorem structured_value_applied:
  assumes "idx < length (queue w)" and "matchOverallProgress logLine = Some cap"
  shows "j_progress (queue (tryParseDebugProgress now idx logLine w) ! idx) =
           (case parseFloat cap of
              NaN \<Rightarrow> j_progress (queue w ! idx)
            | PosInfinity \<Rightarrow> j_progress (queue w ! idx)
            | Finite x \<Rightarrow>
                if j_progress (queue w ! idx) < \<lfloor>x + 1 / 2\<rfloor> \<and> x < 201 / 2
                then \<lfloor>x + 1 / 2\<rfloor> else j_progress (queue w ! idx))"
  using assms mathRound_le_100
  by (simp add: tryParse_progress overallProgressOf_def mathRound_def split: JsNumber.split)

theorem structured_value_witness:
  "0 < length (queue demoWorld)
   \<and> matchOverallProgress demoOverLine = Some (ascii ''100.4'')
   \<and> j_progress (queue (tryParseDebugProgress (ascii ''t5'') 0 demoOverLine demoWorld) ! 0) = 100"
proof -
  have h: "0 < length (queue demoWorld)" "matchOverallProgress demoOverLine = Some (ascii ''100.4'')"
    using demoWorld_job0 by (simp_all add: demoOverLine_facts)
  from structured_value_applied [OF h, of "ascii ''t5''"] h show ?thesis
    using demoWorld_job0 by (simp add: demoOverLine_facts)
qed

text \<open>
  C4 as stated fails: the double that 100.4 is read as lies above 100, outside the
  interval from 0 to 100, and a line carrying it raises the progress from 0 to 100.
\<close>

theorem value_above_hundred_applied:
  "matchOverallProgress demoOverLine = Some (ascii ''100.4'')
   \<and> parseFloat (ascii ''100.4'') = Finite (3532510957718733 / 35184372088832)
   \<and> (100 :: real) < 3532510957718733 / 35184372088832
   \<and> j_progress (queue demoWorld ! 0) = 0
   \<and> j_progress (queue (tryParseDebugProgress (ascii ''t5'') 0 demoOverLine demoWorld) ! 0) = 100"
  using demoWorld_job0 by (simp add: tryParse_progress demoOverLine_facts)

text \<open>
  C5. When the child process of a job closes with exit code 0, the job becomes
  \<open>awaiting-user\<close> with progress 100, its \<open>outputDir\<close> is the directory the
  listeners were created with (by \<open>runJobLaunch_children\<close> the directory named by
  the identifier of the job under \<open>translations\<close>), its \<open>error\<close> is absent, and a
  \<open>completed\<close> payload with \<open>success = true\<close> and that directory has been emitted.
\<close>

theorem exit_zero_awaiting_user:
  assumes "idx < length (queue w)" and "distinct (map j_id (queue w))"
    and "map_of (children w) idx = Some od"
  shows "(let w' = step (ChildClose now idx (Some 0)) w; job' = queue w' ! idx
          in j_status job' = AwaitingUser \<and> j_progress job' = 100
             \<and> j_outputDir job' = Some od \<and> j_error job' = None
             \<and> CompletedPayload (j_id (queue w ! idx)) True (Some od) None \<in> set (emitted w'))"
proof -
  let ?h = "closeHandler now idx od (Some 0) w"
  let ?w1 = "?h\<lparr>children := filter (\<lambda>child. fst child \<noteq> idx) (children ?h)\<rparr>"
  have st: "step (ChildClose now idx (Some 0)) w = settle now idx ?w1"
    using assms(3) by (simp add: Let_def)
  have q1: "queue ?w1 = queue ?h" by simp
  have d1: "distinct (map j_id (queue ?w1))" using assms(2) by simp
  have i1: "idx < length (queue ?w1)" using assms(1) by simp
  have n1: "j_status (queue ?w1 ! idx) \<noteq> Queued"
    using assms(1) by (simp add: closeHandler_zero)
  have keep: "queue (settle now idx ?w1) ! idx = queue ?h ! idx"
    using settle_job_kept(1) [OF d1 i1 n1, of now] by simp
  obtain es where es: "emitted (settle now idx ?w1) = emitted ?h @ es"
    using settle_job_kept(2) [OF d1 i1 n1, of now] by auto
  show ?thesis
    using assms(1) unfolding st Let_def keep es by (simp add: closeHandler_zero)
qed

theorem exit_zero_witness:
  "0 < length (queue demoSpawned) \<and> distinct (map j_id (queue demoSpawned))
   \<and> map_of (children demoSpawned) 0 = Some (ascii ''/data/translations/job-a'')
   \<and> j_status (queue (step (ChildClose (ascii ''t5'') 0 (Some 0)) demoSpawned) ! 0) = AwaitingUser
   \<and> j_progress (queue (step (ChildClose (ascii ''t5'') 0 (Some 0)) demoSpawned) ! 0) = 100
   \<and> j_outputDir (queue (step (ChildClose (ascii ''t5'') 0 (Some 0)) demoSpawned) ! 0)
       = Some (ascii ''/data/translations/job-a'')
   \<and> j_error (queue (step (ChildClose (ascii ''t5'') 0 (Some 0)) demoSpawned) ! 0) = None
   \<and> CompletedPayload (ascii ''job-a'') True (Some (ascii ''/data/translations/job-a'')) None
       \<in> set (emitted (step (ChildClose (ascii ''t5'') 0 (Some 0)) demoSpawned))"
proof -
  have h: "0 < length (queue demoSpawned)" "distinct (map j_id (queue demoSpawned))"
    "map_of (children demoSpawned) 0 = Some (ascii ''/data/translations/job-a'')"
    by (simp_all add: demoSpawned_facts)
  from exit_zero_awaiting_user [OF h, of "ascii ''t5''"] h show ?thesis
    by (simp add: Let_def demoSpawned_facts)
qed

text \<open>
  C6. The two listeners of the child do mark a failed job and the dispatch goes on
  (\<open>failure_keeps_dispatching\<close>), but a job whose \<open>spawn\<close> throws has no
  listeners yet: \<open>runJob\<close> rejects, the \<open>catch\<close> in \<open>processNext\<close> only
  logs, and the job is left as \<open>runJob\<close> had made it. In the session where
  \<open>spawn\<close> throws for the first of two documents, that job still has the status
  \<open>running\<close> and no \<open>error\<close>, no \<open>completed\<close> payload has been emitted,
  and the second job has been dispatched and is \<open>running\<close> too.
\<close>

theorem spawn_throw_leaves_job_running:
  "j_status (queue demoThrown ! 0) = Running
   \<and> j_error (queue demoThrown ! 0) = None
   \<and> filter isCompleted (emitted demoThrown) = []
   \<and> j_status (queue demoThrown ! 1) = Running
   \<and> processing demoThrown"
proof -
  obtain message where eq: "demoThrown
      = processNextResume (ascii ''t4'') (appendLog (ascii ''t4'') 0 message demoWorld)"
    using demoThrown_eq by blast
  let ?w1 = "appendLog (ascii ''t4'') 0 message demoWorld"
  have len: "length (queue ?w1) = 2" by (simp add: demoWorld_facts)
  have ids: "distinct (map j_id (queue ?w1))" using demoWorld_job0 by simp
  have st: "j_status (queue ?w1 ! 0) = Running" "j_status (queue ?w1 ! Suc 0) = Queued"
    using demoWorld_job0 demoWorld_job1 by (simp_all add: appendLog_statuses)
  have err: "j_error (queue ?w1 ! 0) = None"
    using demoWorld_job0 by (simp add: appendLog_frame) (simp add: demoWorld_eq)
  have em: "filter isCompleted (emitted ?w1) = []"
    by (simp add: appendLog_no_completed demoWorld_eq)
  have nxt: "findIndex (\<lambda>job. j_status job = Queued) (queue ?w1) = Some (Suc 0)"
    by (rule findIndex_least) (simp_all add: demoWorld_facts st)
  have d: "dispatched ?w1 (processNextResume (ascii ''t4'') ?w1)"
    using ids by (rule processNextResume_dispatched)
  from d nxt demoWorld_facts(1) have a: "processing demoThrown" "j_status (queue demoThrown ! Suc 0) = Running"
    "queue demoThrown ! 0 = queue ?w1 ! 0"
    by (simp_all add: dispatched_def eq)
  have "emitted demoThrown = emitted ?w1 @ [StatusPayload (j_id (queue ?w1 ! Suc 0)) Running (Some 0)]"
    using nxt by (simp add: eq processNextResume_def processNext_def runJobStart_emitted)
  then have "filter isCompleted (emitted demoThrown) = []" by (simp add: em)
  with a st err show ?thesis by simp
qed

text \<open>
  C7. Appending messages to a job whose logs hold at most 500 entries keeps the last
  500 of the old entries followed by the trimmed messages that are not blank (a blank
  message is not appended), in their order; the logs never hold more than 500 entries,
  and once more than 500 such messages were appended, the logs are exactly the last 500
  of them.
\<close>

theorem logs_ring_buffer:
  assumes "idx < length (queue w)" and "length (j_logs (queue w ! idx)) \<le> 500"
  shows "(let kept = filter (\<lambda>m. m \<noteq> []) (map (\<lambda>m. trim (snd m)) ms);
              every = j_logs (queue w ! idx) @ kept;
              logs' = j_logs (queue (appendLogs idx ms w) ! idx)
          in logs' = drop (length every - 500) every
             \<and> length logs' \<le> 500
             \<and> (if 500 < length kept
                then length logs' = 500 \<and> logs' = drop (length kept - 500) kept
                else length logs' = min 500 (length every)))"
  using appendLogs_logs [OF assms, of ms] by (auto simp: Let_def)

theorem logs_ring_buffer_witness:
  "0 < length (queue demoWorld) \<and> length (j_logs (queue demoWorld ! 0)) \<le> 500
   \<and> length (j_logs (queue (appendLogs 0 (replicate 600 (ascii ''t5'', ascii '' line '')) demoWorld) ! 0)) = 500
   \<and> j_logs (queue (appendLogs 0 (replicate 600 (ascii ''t5'', ascii '' line '')) demoWorld) ! 0)
       = replicate 500 (ascii ''line'')"
proof -
  have h: "0 < length (queue demoWorld)" "length (j_logs (queue demoWorld ! 0)) \<le> 500"
    using demoWorld_job0 by simp_all
  have t: "trim (ascii '' line '') = ascii ''line''"
    by (simp add: trim_def ascii_def isWhiteSpace_def)
  have n: "ascii ''line'' \<noteq> []" by (simp add: ascii_def)
  have k: "filter (\<lambda>m. m \<noteq> []) (map (\<lambda>m. trim (snd m)) (replicate 600 (ascii ''t5'', ascii '' line '')))
             = replicate 600 (ascii ''line'')"
    using n by (simp add: t)
  from logs_ring_buffer [OF h, of "replicate 600 (ascii ''t5'', ascii '' line '')"] h show ?thesis
    unfolding Let_def k by simp
qed

text \<open>
  C8. \<open>markJobSaved\<close> on an identifier that a job of the queue carries, whatever the
  status of that job, returns the job with status \<open>success\<close>, progress 100, the
  \<open>savePath\<close> given and no \<open>error\<close>, and changes this one job of the queue and no
  other; a second call with the same arguments leaves the queue as the first one did.
  On an identifier that no job carries it returns \<open>null\<close> and changes nothing.
\<close>

theorem markJobSaved_effect:
  "(if \<exists>item\<in>set (queue w). j_id item = jobId
    then \<exists>k<length (queue w).
           j_id (queue w ! k) = jobId
           \<and> fst (markJobSaved now jobId savePath w) =
               Some ((queue w ! k)\<lparr>j_status := Success, j_progress := 100,
                       j_savePath := Some savePath, j_error := None, j_updatedAt := now\<rparr>)
           \<and> queue (snd (markJobSaved now jobId savePath w)) =
               (queue w)[k := (queue w ! k)\<lparr>j_status := Success, j_progress := 100,
                       j_savePath := Some savePath, j_error := None, j_updatedAt := now\<rparr>]
           \<and> processing (snd (markJobSaved now jobId savePath w)) = processing w
           \<and> queue (snd (markJobSaved now jobId savePath (snd (markJobSaved now jobId savePath w))))
               = queue (snd (markJobSaved now jobId savePath w))
    else markJobSaved now jobId savePath w = (None, w))"
proof (cases "\<exists>item\<in>set (queue w). j_id item = jobId")
  case False
  then show ?thesis using markJobSaved_absent [of w jobId now savePath] by simp
next
  case True
  then have "findIndex (\<lambda>item. j_id item = jobId) (queue w) \<noteq> None"
    by (simp add: findIndex_None_iff)
  then obtain k where fk: "findIndex (\<lambda>item. j_id item = jobId) (queue w) = Some k"
    by auto
  let ?saved = "(queue w ! k)\<lparr>j_status := Success, j_progress := 100,
                   j_savePath := Some savePath, j_error := None, j_updatedAt := now\<rparr>"
  let ?w' = "snd (markJobSaved now jobId savePath w)"
  from findIndex_SomeD [OF fk]
  have k: "k < length (queue w)" "j_id (queue w ! k) = jobId" "\<forall>j<k. j_id (queue w ! j) \<noteq> jobId"
    by auto
  note once = markJobSaved_found [OF fk, of now savePath]
  have fk': "findIndex (\<lambda>item. j_id item = jobId) (queue ?w') = Some k"
  proof (rule findIndex_least)
    show "k < length (queue ?w')" using k by (simp add: once(2))
    show "j_id (queue ?w' ! k) = jobId" using k by (simp add: once(2))
    show "\<forall>j<k. j_id (queue ?w' ! j) \<noteq> jobId" using k by (simp add: once(2))
  qed
  have twice: "queue (snd (markJobSaved now jobId savePath ?w')) = queue ?w'"
    using k by (simp add: markJobSaved_found(2) [OF fk'] once(2))
  show ?thesis
    using True k once twice by auto
qed

theorem markJobSaved_witness:
  "(\<exists>item\<in>set (queue demoWorld). j_id item = ascii ''job-a'')
   \<and> map j_status (queue (snd (markJobSaved (ascii ''t5'') (ascii ''job-a'') (ascii ''/dest'') demoWorld)))
       = [Success, Queued]
   \<and> map j_savePath (queue (snd (markJobSaved (ascii ''t5'') (ascii ''job-a'') (ascii ''/dest'') demoWorld)))
       = [Some (ascii ''/dest''), None]
   \<and> (\<exists>job. fst (markJobSaved (ascii ''t5'') (ascii ''job-a'') (ascii ''/dest'') demoWorld) = Some job
         \<and> j_status job = Success \<and> j_progress job = 100 \<and> j_error job = None)
   \<and> fst (markJobSaved (ascii ''t5'') (ascii ''job-c'') (ascii ''/dest'') demoWorld) = None"
proof -
  have a: "\<exists>item\<in>set (queue demoWorld). j_id item = ascii ''job-a''"
    by (simp add: demoWorld_eq)
  have c: "\<not> (\<exists>item\<in>set (queue demoWorld). j_id item = ascii ''job-c'')"
    by (simp add: demoWorld_eq ascii_def)
  have ids: "\<And>k. k < length (queue demoWorld) \<Longrightarrow> j_id (queue demoWorld ! k) = ascii ''job-a'' \<Longrightarrow> k = 0"
    by (simp add: demoWorld_eq ascii_def nth_Cons split: nat.splits)
  from markJobSaved_effect [of demoWorld "ascii ''job-a''" "ascii ''t5''" "ascii ''/dest''"] a ids
  have "fst (markJobSaved (ascii ''t5'') (ascii ''job-a'') (ascii ''/dest'') demoWorld) =
               Some ((queue demoWorld ! 0)\<lparr>j_status := Success, j_progress := 100,
                       j_savePath := Some (ascii ''/dest''), j_error := None, j_updatedAt := ascii ''t5''\<rparr>)
           \<and> queue (snd (markJobSaved (ascii ''t5'') (ascii ''job-a'') (ascii ''/dest'') demoWorld)) =
               (queue demoWorld)[0 := (queue demoWorld ! 0)\<lparr>j_status := Success, j_progress := 100,
                       j_savePath := Some (ascii ''/dest''), j_error := None, j_updatedAt := ascii ''t5''\<rparr>]"
    by auto
  moreover from markJobSaved_effect [of demoWorld "ascii ''job-c''" "ascii ''t5''" "ascii ''/dest''"] c
  have "fst (markJobSaved (ascii ''t5'') (ascii ''job-c'') (ascii ''/dest'') demoWorld) = None"
    by simp
  ultimately show ?thesis using a by (simp add: demoWorld_eq)
qed

text \<open>
  C9, as amended. The listeners do not cut the output into lines: each chunk that a
  stream delivers is trimmed and handled as one message. A chunk that is blank is
  dropped. Any other chunk becomes one entry at the end of the logs, the oldest entries
  beyond 500 being evicted; the logs are written to every stored record of the job; a
  \<open>progress\<close> payload with the trimmed chunk is emitted; and both progress rules are
  run on the trimmed chunk as a whole.
\<close>

theorem chunk_logged_whole:
  assumes "idx < length (queue w)"
  shows "(if trim chunk = [] then dataHandler now idx chunk w = w
          else (let w' = dataHandler now idx chunk w;
                    every = j_logs (queue w ! idx) @ [trim chunk]
                in j_logs (queue w' ! idx) = drop (length every - 500) every
                   \<and> (\<forall>r\<in>set (history w'). r_id r = j_id (queue w ! idx)
                          \<longrightarrow> r_logs r = j_logs (queue w' ! idx))
                   \<and> (\<exists>es. emitted w' =
                          emitted w @ ProgressPayload (j_id (queue w ! idx)) (trim chunk) # es)
                   \<and> j_progress (queue w' ! idx)
                       = lineProgress (j_progress (queue w ! idx)) (trim chunk)))"
proof (cases "trim chunk = []")
  case True
  then show ?thesis by (simp add: dataHandler_eq appendLog_blank)
next
  case False
  have "storedLogs (j_id (queue w ! idx)) (j_logs (queue (appendLog now idx chunk w) ! idx))
           (appendLog now idx chunk w)"
    using assms False by (rule appendLog_stored)
  moreover have "\<exists>es. emitted (appendLog now idx chunk w) =
           emitted w @ ProgressPayload (j_id (queue w ! idx)) (trim chunk) # es"
    using False by (rule appendLog_emitted)
  ultimately show ?thesis
    using assms False
    by (simp add: dataHandler_eq Let_def appendLog_logs evict_eq appendLog_progress storedLogs_def)
qed

theorem chunk_logged_witness:
  "0 < length (queue demoSpawned)
   \<and> j_logs (queue (dataHandler (ascii ''t5'') 0 demoChunk demoSpawned) ! 0)
       = j_logs (queue demoSpawned ! 0)
         @ [ascii ''Parse Page Layout'' @ [10] @ ascii ''Translate Paragraphs'']
   \<and> (\<exists>es. emitted (dataHandler (ascii ''t5'') 0 demoChunk demoSpawned) =
          emitted demoSpawned
          @ ProgressPayload (ascii ''job-a'')
              (ascii ''Parse Page Layout'' @ [10] @ ascii ''Translate Paragraphs'') # es)"
proof -
  have h: "0 < length (queue demoSpawned)" by (simp add: demoSpawned_facts)
  have n: "ascii ''Parse Page Layout'' @ [10] @ ascii ''Translate Paragraphs'' \<noteq> []"
    by (simp add: ascii_def)
  from chunk_logged_whole [OF h, of demoChunk "ascii ''t5''"] h n demoSpawned_logs show ?thesis
    by (simp add: Let_def demoChunk_facts demoSpawned_facts)
qed

text \<open>
  C9 as stated fails: a chunk that holds two lines is logged as a single entry
  with the line feed inside, where the reading line by line appends two entries.
\<close>

theorem chunk_not_split_into_lines:
  "specLines [] demoChunk = [ascii ''Parse Page Layout'', ascii ''Translate Paragraphs'']
   \<and> j_logs (queue (step (ChildData (ascii ''t5'') 0 demoChunk) demoSpawned) ! 0)
       = j_logs (queue demoSpawned ! 0)
         @ [ascii ''Parse Page Layout'' @ [10] @ ascii ''Translate Paragraphs'']
   \<and> j_logs (queue (appendLogs 0 (map (Pair (ascii ''t5'')) (specLines [] demoChunk)) demoSpawned) ! 0)
       = j_logs (queue demoSpawned ! 0)
         @ [ascii ''Parse Page Layout'', ascii ''Translate Paragraphs'']"
proof -
  have s: "step (ChildData (ascii ''t5'') 0 demoChunk) demoSpawned
             = appendLog (ascii ''t5'') 0 demoChunk demoSpawned"
    using demoSpawned_facts(7) by (simp add: dataHandler_eq)
  have n: "ascii ''Parse Page Layout'' @ [10] @ ascii ''Translate Paragraphs'' \<noteq> []"
    "ascii ''Parse Page Layout'' \<noteq> []" "ascii ''Translate Paragraphs'' \<noteq> []"
    by (simp_all add: ascii_def)
  have l: "0 < length (queue demoSpawned)" by (simp add: demoSpawned_facts)
  show ?thesis
    unfolding s using demoSpawned_logs l n
    by (simp add: demoChunk_facts appendLogs_def appendLog_logs evict_def)
qed

text \<open>
  C10. \<open>appendHistory\<close> puts the new record first and keeps at most the 499 records
  that were first before, so the stored list has the old length plus one, capped at 500;
  and from the empty store no sequence of calls of the three store functions ever leaves
  more than 500 records.
\<close>

theorem appendHistory_bounded:
  "appendHistory record h = record # take 499 h
   \<and> length (appendHistory record h) = min 500 (Suc (length h))
   \<and> length (storeCalls calls []) \<le> 500"
proof (intro conjI)
  show "appendHistory record h = record # take 499 h"
    by (simp add: appendHistory_def take_Cons')
  show "length (appendHistory record h) = min 500 (Suc (length h))"
    by (simp add: appendHistory_def)
  show "length (storeCalls calls []) \<le> 500"
    by (rule storeCalls_bound) simp
qed

theorem appendHistory_witness:
  "length (appendHistory (createHistorySkeleton (ascii ''t5'') demoInsight (queue demoWorld ! 0) Running None)
             (replicate 500 (createHistorySkeleton (ascii ''t1'') demoInsight (queue demoWorld ! 1) Running None)))
     = 500
   \<and> hd (appendHistory (createHistorySkeleton (ascii ''t5'') demoInsight (queue demoWorld ! 0) Running None)
             (replicate 500 (createHistorySkeleton (ascii ''t1'') demoInsight (queue demoWorld ! 1) Running None)))
     = createHistorySkeleton (ascii ''t5'') demoInsight (queue demoWorld ! 0) Running None"
  using appendHistory_bounded
    [of "createHistorySkeleton (ascii ''t5'') demoInsight (queue demoWorld ! 0) Running None"
        "replicate 500 (createHistorySkeleton (ascii ''t1'') demoInsight (queue demoWorld ! 1) Running None)"
        "[]"]
  by simp

end
